theory Spec2Isabelle
  imports Main
begin

unbundle bit_operations_syntax

section \<open>Data model of bmfont2c.py\<close>

text \<open>
  Python integers are unbounded and are modelled as \<open>int\<close>. The sheet image is the
  external pixel accessor \<open>img.getpixel((x, y))\<close>; it is taken as a parameter, a function
  from a coordinate pair to an intensity.
\<close>

type_synonym image = "int \<times> int \<Rightarrow> int"

text \<open>
  Class \<open>Glyph\<close>. The attributes \<open>id\<close>, \<open>x\<close> and \<open>y\<close> are called \<open>glyph_id\<close>,
  \<open>glyph_x\<close> and \<open>glyph_y\<close> here.
\<close>

record glyph =
  glyph_id :: int
  glyph_x :: int
  glyph_y :: int
  width :: int
  height :: int
  xoffset :: int
  yoffset :: int
  xadvance :: int

section \<open>Glyph.makeBitmapCode\<close>

text \<open>
  The local variables of the loop over one row: the comment, the bytes appended to
  \<open>bytestring\<close> (each item \<open>"0x%02x, " % byte\<close> is kept as the byte value), the byte
  under construction and the mask.
\<close>

record row_state =
  comment :: string
  bytestring :: "int list"
  byte :: int
  maskv :: int

text \<open>The value of \<open>pixel\<close> for target column \<open>x\<close> and row \<open>y\<close>.\<close>

definition pixel_at :: "glyph \<Rightarrow> image \<Rightarrow> int \<Rightarrow> int \<Rightarrow> int \<Rightarrow> int \<Rightarrow> int" where
  "pixel_at g img x y crop_x crop_y =
     (let use_x = x - xoffset g + crop_x;
          use_y = y - yoffset g + crop_y
      in if use_x \<ge> 0 \<and> use_x < width g \<and> use_y \<ge> 0 \<and> use_y < height g
         then (if img (use_x + glyph_x g, use_y + glyph_y g) > 127 then 1 else 0)
         else 0)"

text \<open>One iteration of the loop over \<open>x\<close>.\<close>

definition row_step :: "glyph \<Rightarrow> image \<Rightarrow> int \<Rightarrow> int \<Rightarrow> int \<Rightarrow> row_state \<Rightarrow> int \<Rightarrow> row_state" where
  "row_step g img y crop_x crop_y st x =
     (let pixel = pixel_at g img x y crop_x crop_y;
          st1 = (if pixel \<noteq> 0
                 then st\<lparr>comment := comment st @ ''O'', byte := byte st OR maskv st\<rparr>
                 else if x \<ge> xadvance g
                      then st\<lparr>comment := comment st @ ''.''\<rparr>
                      else st\<lparr>comment := comment st @ ''-''\<rparr>);
          st2 = st1\<lparr>maskv := maskv st1 div 2\<rparr>
      in if maskv st2 = 0
         then st2\<lparr>bytestring := bytestring st2 @ [byte st2], maskv := 128, byte := 0\<rparr>
         else st2)"

text \<open>One line of the emitted text: the bytes of the row and its comment.\<close>

record glyph_row =
  row_bytes :: "int list"
  row_comment :: string

definition make_row :: "glyph \<Rightarrow> image \<Rightarrow> int \<Rightarrow> int \<Rightarrow> int \<Rightarrow> int \<Rightarrow> glyph_row" where
  "make_row g img wd y crop_x crop_y =
     (let st = foldl (row_step g img y crop_x crop_y)
                 \<lparr>comment = [], bytestring = [], byte = 0, maskv = 128\<rparr> [0..wd - 1]
      in \<lparr>row_bytes = (if maskv st \<noteq> 128 then bytestring st @ [byte st] else bytestring st),
          row_comment = comment st\<rparr>)"

text \<open>
  The text returned by \<open>makeBitmapCode\<close>: the header comment with the glyph's id and
  advance, then one line per row.
\<close>

record glyph_code =
  ascii_id :: int
  char_width :: int
  rows :: "glyph_row list"

definition makeBitmapCode :: "glyph \<Rightarrow> image \<Rightarrow> int \<Rightarrow> int \<Rightarrow> int \<Rightarrow> int \<Rightarrow> glyph_code" where
  "makeBitmapCode g img wd ht crop_x crop_y =
     \<lparr>ascii_id = glyph_id g, char_width = xadvance g,
      rows = map (\<lambda>y. make_row g img wd y crop_x crop_y) [0..ht - 1]\<rparr>"

text \<open>The bytes of a glyph's code, in the order they are emitted.\<close>

definition code_bytes :: "glyph_code \<Rightarrow> int list" where
  "code_bytes c = concat (map row_bytes (rows c))"

text \<open>
  The calls of \<open>img.getpixel\<close>. For target column \<open>x\<close> and row \<open>y\<close> the body of the loop
  calls it at most once, under the test on \<open>use_x\<close> and \<open>use_y\<close>; \<open>getpixel_args\<close> lists
  the arguments of these calls. \<open>getpixel_calls\<close> lists the arguments of all calls of one
  run of \<open>makeBitmapCode\<close>, in the order of the two loops.
\<close>

definition getpixel_args :: "glyph \<Rightarrow> int \<Rightarrow> int \<Rightarrow> int \<Rightarrow> int \<Rightarrow> (int \<times> int) list" where
  "getpixel_args g x y crop_x crop_y =
     (let use_x = x - xoffset g + crop_x;
          use_y = y - yoffset g + crop_y
      in if use_x \<ge> 0 \<and> use_x < width g \<and> use_y \<ge> 0 \<and> use_y < height g
         then [(use_x + glyph_x g, use_y + glyph_y g)]
         else [])"

definition getpixel_calls :: "glyph \<Rightarrow> int \<Rightarrow> int \<Rightarrow> int \<Rightarrow> int \<Rightarrow> (int \<times> int) list" where
  "getpixel_calls g wd ht crop_x crop_y =
     concat (map (\<lambda>y. concat (map (\<lambda>x. getpixel_args g x y crop_x crop_y) [0..wd - 1]))
               [0..ht - 1])"

section \<open>Configuration\<close>

text \<open>
  Python raises \<open>ValueError\<close> when \<open>chr\<close> is given an integer outside the range of code
  points and \<open>IndexError\<close> when \<open>glyphs[0]\<close> is evaluated on an empty list. Both are
  results of the model: a function that can raise returns \<open>Inl\<close> of the error. Nothing
  catches these exceptions, so an error ends the run and the state at the error is not
  kept.
\<close>

datatype py_error = ValueError | IndexError

text \<open>
  A one-character string is represented by its code point. \<open>chr\<close> is the builtin of
  Python 3, defined on \<open>range(0x110000)\<close>.
\<close>

definition chr_py :: "int \<Rightarrow> py_error + int" where
  "chr_py i = (if 0 \<le> i \<and> i < 1114112 then Inr i else Inl ValueError)"

text \<open>
  Class \<open>Config\<close>. The attribute \<open>chars\<close> is \<open>None\<close> or a set of characters.
\<close>

record config =
  font_input :: string
  c_fontname :: string
  first_ascii :: int
  last_ascii :: int
  bytes_width :: int
  bytes_height :: int
  crop_x :: int
  crop_y :: int
  chars :: "int set option"
  fixed_width :: int

text \<open>
  \<open>loadStringsCharSet\<close>, on the text of the strings file: the set of its characters other
  than the newline.
\<close>

definition loadStringsCharSet :: "int list \<Rightarrow> int set" where
  "loadStringsCharSet strings = set (filter (\<lambda>c. c \<noteq> 10) strings)"

text \<open>
  The value \<open>Config.__init__\<close> gives to \<open>chars\<close>. The argument is the text of the file
  named by the option \<open>Strings\<close>, or \<open>None\<close> when the section has no such option.
\<close>

definition config_chars :: "int list option \<Rightarrow> int set option" where
  "config_chars strings_file =
     (case strings_file of
        Some strings \<Rightarrow> Some (loadStringsCharSet strings)
      | None \<Rightarrow> None)"

text \<open>
  The three tests on \<open>config.chars\<close>. In a condition Python takes \<open>None\<close> and the empty
  set as false: \<open>truthy\<close> is \<open>if config.chars\<close>, \<open>skipped\<close> is
  \<open>config.chars and char not in config.chars\<close>, \<open>selected\<close> is
  \<open>config.chars and char in config.chars\<close>.
\<close>

definition truthy :: "int set option \<Rightarrow> bool" where
  "truthy cs = (case cs of None \<Rightarrow> False | Some s \<Rightarrow> s \<noteq> {})"

definition skipped :: "config \<Rightarrow> int \<Rightarrow> bool" where
  "skipped config char = (case chars config of None \<Rightarrow> False | Some s \<Rightarrow> s \<noteq> {} \<and> char \<notin> s)"

definition selected :: "config \<Rightarrow> int \<Rightarrow> bool" where
  "selected config char = (case chars config of None \<Rightarrow> False | Some s \<Rightarrow> s \<noteq> {} \<and> char \<in> s)"

section \<open>The tables\<close>

text \<open>
  The global \<open>total_ram\<close> and the lines printed are the state of a run. Of the lines
  printed, the two \<open>INFO\<close> lines are kept.
\<close>

datatype message = NoGlyphInfo int | FontTablesUse int

record run_state =
  total_ram :: int
  stdout :: "message list"

text \<open>The search \<open>for glyph in glyphs: if glyph.id == ascii: ... break\<close>.\<close>

definition find_glyph :: "glyph list \<Rightarrow> int \<Rightarrow> glyph option" where
  "find_glyph glyphs ascii = find (\<lambda>glyph. glyph_id glyph = ascii) glyphs"

text \<open>
  One glyph of the bitmaps table: the comment \<open>// No glyph for ASCII: %d, using
  substitute:\<close> when it was written, and the glyph's code.
\<close>

record bitmap_item =
  substitute_note :: "int option"
  item_code :: glyph_code

text \<open>The loop of \<open>makeBitmapsTable\<close> over the ascii range.\<close>

fun bitmaps_loop ::
  "config \<Rightarrow> image \<Rightarrow> glyph list \<Rightarrow> int list \<Rightarrow> bitmap_item list \<Rightarrow> run_state
    \<Rightarrow> py_error + (bitmap_item list \<times> run_state)" where
  "bitmaps_loop config img glyphs [] s st = Inr (s, st)"
| "bitmaps_loop config img glyphs (ascii # rest) s st =
     (case chr_py ascii of
        Inl e \<Rightarrow> Inl e
      | Inr char \<Rightarrow>
          if skipped config char then bitmaps_loop config img glyphs rest s st
          else
            (case find_glyph glyphs ascii of
               Some glyph_found \<Rightarrow>
                 bitmaps_loop config img glyphs rest
                   (s @ [\<lparr>substitute_note = None,
                          item_code = makeBitmapCode glyph_found img (bytes_width config * 8)
                            (bytes_height config) (crop_x config) (crop_y config)\<rparr>])
                   st
             | None \<Rightarrow>
                 (case glyphs of
                    [] \<Rightarrow> Inl IndexError
                  | glyph_found # _ \<Rightarrow>
                      bitmaps_loop config img glyphs rest
                        (s @ [\<lparr>substitute_note = Some ascii,
                               item_code = makeBitmapCode glyph_found img (bytes_width config * 8)
                                 (bytes_height config) (crop_x config) (crop_y config)\<rparr>])
                        (st\<lparr>stdout := stdout st @ [NoGlyphInfo ascii]\<rparr>))))"

definition makeBitmapsTable ::
  "config \<Rightarrow> image \<Rightarrow> glyph list \<Rightarrow> run_state \<Rightarrow> py_error + (bitmap_item list \<times> run_state)" where
  "makeBitmapsTable config img glyphs st =
     (let table_size = (last_ascii config - first_ascii config + 1) * bytes_width config
                         * bytes_height config
      in bitmaps_loop config img glyphs [first_ascii config..last_ascii config] []
           (st\<lparr>total_ram := total_ram st + table_size\<rparr>))"

text \<open>The bytes of the bitmaps table, in the order they are emitted.\<close>

definition table_bytes :: "bitmap_item list \<Rightarrow> int list" where
  "table_bytes s = concat (map (\<lambda>item. code_bytes (item_code item)) s)"

text \<open>\<open>Glyph.makeWidthCode\<close>: the item \<open>'%2d, ' % xadvance\<close> is kept as the number.\<close>

definition makeWidthCode :: "glyph \<Rightarrow> int" where
  "makeWidthCode g = xadvance g"

text \<open>
  The widths table: the size in the declaration \<open>%s_Widths[%u]\<close> and the items of the
  initializer. The counter \<open>i\<close> of \<open>makeWidthsTable\<close> only places line breaks and is left
  out, as is the one of \<open>makeBitmapsOffsetTable\<close>.
\<close>

record widths_table =
  declared_count :: int
  width_items :: "int list"

fun widths_loop :: "config \<Rightarrow> glyph list \<Rightarrow> int list \<Rightarrow> int list \<Rightarrow> py_error + int list" where
  "widths_loop config glyphs [] s = Inr s"
| "widths_loop config glyphs (ascii # rest) s =
     (case chr_py ascii of
        Inl e \<Rightarrow> Inl e
      | Inr char \<Rightarrow>
          if skipped config char then widths_loop config glyphs rest s
          else
            (case find_glyph glyphs ascii of
               Some glyph_found \<Rightarrow> widths_loop config glyphs rest (s @ [makeWidthCode glyph_found])
             | None \<Rightarrow>
                 (case glyphs of
                    [] \<Rightarrow> Inl IndexError
                  | glyph_found # _ \<Rightarrow>
                      widths_loop config glyphs rest (s @ [makeWidthCode glyph_found]))))"

definition makeWidthsTable ::
  "config \<Rightarrow> glyph list \<Rightarrow> run_state \<Rightarrow> py_error + (widths_table \<times> run_state)" where
  "makeWidthsTable config glyphs st =
     (let count = last_ascii config - first_ascii config + 1;
          st1 = st\<lparr>total_ram := total_ram st + count\<rparr>
      in case widths_loop config glyphs [first_ascii config..last_ascii config] [] of
           Inl e \<Rightarrow> Inl e
         | Inr s \<Rightarrow> Inr (\<lparr>declared_count = count, width_items = s\<rparr>, st1))"

text \<open>The loop of \<open>makeBitmapsOffsetTable\<close>, with the items and the counter \<open>n\<close>.\<close>

fun offsets_loop :: "config \<Rightarrow> int list \<Rightarrow> int list \<Rightarrow> int \<Rightarrow> py_error + int list" where
  "offsets_loop config [] s n = Inr s"
| "offsets_loop config (ascii # rest) s n =
     (case chr_py ascii of
        Inl e \<Rightarrow> Inl e
      | Inr char \<Rightarrow>
          if selected config char then offsets_loop config rest (s @ [n]) (n + 1)
          else offsets_loop config rest (s @ [- 1]) n)"

definition makeBitmapsOffsetTable :: "config \<Rightarrow> py_error + int list" where
  "makeBitmapsOffsetTable config =
     offsets_loop config [first_ascii config..last_ascii config] [] 0"

text \<open>
  \<open>makeFontStyleDecl\<close>: the five numbers of the initializer, and whether the widths and
  the offsets are referenced (otherwise \<open>(void*)0\<close> is written).
\<close>

record font_style =
  glyph_count :: int
  first_ascii_code :: int
  glyph_bytes_width :: int
  glyph_height :: int
  style_fixed_width :: int
  widths_ref :: bool
  offsets_ref :: bool

definition makeFontStyleDecl :: "config \<Rightarrow> font_style" where
  "makeFontStyleDecl config =
     \<lparr>glyph_count = last_ascii config - first_ascii config + 1,
      first_ascii_code = first_ascii config,
      glyph_bytes_width = bytes_width config,
      glyph_height = bytes_height config,
      style_fixed_width = fixed_width config,
      widths_ref = (fixed_width config = 0),
      offsets_ref = truthy (chars config)\<rparr>"

text \<open>
  \<open>makeFontSource\<close>. The image and the glyphs are what \<open>loadFont\<close> returns; they are
  parameters.
\<close>

record font_source =
  bitmaps :: "bitmap_item list"
  widths :: "widths_table option"
  offsets :: "int list option"
  style :: font_style

definition makeFontSource ::
  "config \<Rightarrow> image \<Rightarrow> glyph list \<Rightarrow> run_state \<Rightarrow> py_error + (font_source \<times> run_state)" where
  "makeFontSource config img glyphs st =
     (case makeBitmapsTable config img glyphs st of
        Inl e \<Rightarrow> Inl e
      | Inr (bm, st1) \<Rightarrow>
          (case (if fixed_width config = 0
                 then (case makeWidthsTable config glyphs st1 of
                         Inl e \<Rightarrow> Inl e
                       | Inr (w, st2) \<Rightarrow> Inr (Some w, st2))
                 else Inr (None, st1)) of
             Inl e \<Rightarrow> Inl e
           | Inr (ws, st2) \<Rightarrow>
               (case (if truthy (chars config)
                      then (case makeBitmapsOffsetTable config of
                              Inl e \<Rightarrow> Inl e
                            | Inr t \<Rightarrow> Inr (Some t))
                      else Inr None) of
                  Inl e \<Rightarrow> Inl e
                | Inr os \<Rightarrow>
                    Inr (\<lparr>bitmaps = bm, widths = ws, offsets = os,
                          style = makeFontStyleDecl config\<rparr>, st2))))"

text \<open>
  \<open>processConfig\<close>. The argument lists, for the sections \<open>Font1\<close>, \<open>Font2\<close>, ... in
  order, the configuration of the section with the image and glyphs of its font. The
  result is the source assembled font by font and the final state, whose last printed
  line is \<open>INFO: Font tables use: %u bytes\<close>.
\<close>

fun fonts_loop ::
  "(config \<times> image \<times> glyph list) list \<Rightarrow> font_source list \<Rightarrow> run_state
    \<Rightarrow> py_error + (font_source list \<times> run_state)" where
  "fonts_loop [] source st = Inr (source, st)"
| "fonts_loop ((config, img, glyphs) # rest) source st =
     (case makeFontSource config img glyphs st of
        Inl e \<Rightarrow> Inl e
      | Inr (font, st1) \<Rightarrow> fonts_loop rest (source @ [font]) st1)"

definition processConfig ::
  "(config \<times> image \<times> glyph list) list \<Rightarrow> run_state \<Rightarrow> py_error + (font_source list \<times> run_state)" where
  "processConfig fonts st =
     (case fonts_loop fonts [] (st\<lparr>total_ram := 0\<rparr>) of
        Inl e \<Rightarrow> Inl e
      | Inr (source, st1) \<Rightarrow>
          Inr (source, st1\<lparr>stdout := stdout st1 @ [FontTablesUse (total_ram st1)]\<rparr>))"

section \<open>Auxiliary definitions for the proofs\<close>

text \<open>
  The invariant of the loop over \<open>x\<close> after \<open>n\<close> columns, where \<open>pix k\<close> says that
  column \<open>k\<close> of the row is set: the mask is at bit \<open>7 - n mod 8\<close>, the finished bytes
  hold eight columns each with the first column in bit 7, and the byte under construction
  holds the columns since the last byte boundary.
\<close>

definition row_inv :: "(nat \<Rightarrow> bool) \<Rightarrow> nat \<Rightarrow> row_state \<Rightarrow> bool" where
  "row_inv pix n st \<longleftrightarrow>
     maskv st = 2 ^ (7 - n mod 8) \<and>
     length (bytestring st) = n div 8 \<and>
     (\<forall>j < n div 8. \<forall>i. bit (bytestring st ! j) i \<longleftrightarrow> i < 8 \<and> pix (8 * j + 7 - i)) \<and>
     (\<forall>i. bit (byte st) i \<longleftrightarrow> i < 8 \<and> 8 - n mod 8 \<le> i \<and> pix (8 * (n div 8) + 7 - i))"

definition row_pix :: "glyph \<Rightarrow> image \<Rightarrow> int \<Rightarrow> int \<Rightarrow> int \<Rightarrow> nat \<Rightarrow> bool" where
  "row_pix g img y cx cy k \<longleftrightarrow> pixel_at g img (int k) y cx cy \<noteq> 0"

text \<open>
  The glyph the tables use for a code point: the first glyph with that id, or the first
  glyph of the collection. The item of the bitmaps table for a code point. The code points
  of a list that are not skipped, and those for which no glyph is found.
\<close>

definition resolved :: "glyph list \<Rightarrow> int \<Rightarrow> glyph" where
  "resolved glyphs ascii = (case find_glyph glyphs ascii of Some g \<Rightarrow> g | None \<Rightarrow> glyphs ! 0)"

definition item_for :: "config \<Rightarrow> image \<Rightarrow> glyph list \<Rightarrow> int \<Rightarrow> bitmap_item" where
  "item_for config img glyphs ascii =
     \<lparr>substitute_note = (if find_glyph glyphs ascii = None then Some ascii else None),
      item_code = makeBitmapCode (resolved glyphs ascii) img (bytes_width config * 8)
                    (bytes_height config) (crop_x config) (crop_y config)\<rparr>"

definition emitted :: "config \<Rightarrow> int list \<Rightarrow> int list" where
  "emitted config cs = filter (\<lambda>c. \<not> skipped config c) cs"

definition missing :: "config \<Rightarrow> glyph list \<Rightarrow> int list \<Rightarrow> int list" where
  "missing config glyphs cs = filter (\<lambda>c. find_glyph glyphs c = None) (emitted config cs)"

text \<open>What the two tables of one font add to \<open>total_ram\<close>.\<close>

definition counted_bytes :: "config \<Rightarrow> int" where
  "counted_bytes config =
     (last_ascii config - first_ascii config + 1) * bytes_width config * bytes_height config
     + (if fixed_width config = 0 then last_ascii config - first_ascii config + 1 else 0)"

text \<open>The dense index of position \<open>k\<close> of a list of code points, counted from \<open>n\<close>.\<close>

definition dense_index :: "config \<Rightarrow> int list \<Rightarrow> int \<Rightarrow> nat \<Rightarrow> int" where
  "dense_index config cs n k = n + int (length (filter (selected config) (take k cs)))"

definition offset_items :: "config \<Rightarrow> int list \<Rightarrow> int \<Rightarrow> int list" where
  "offset_items config cs n =
     map (\<lambda>k. if selected config (cs ! k) then dense_index config cs n k else - 1) [0..<length cs]"

text \<open>
  The glyph and sheet of the end-to-end example: one glyph \<open>A\<close> of one pixel, of
  intensity 200, with advance 5.
\<close>

definition glyph_A :: glyph where
  "glyph_A = \<lparr>glyph_id = 65, glyph_x = 2, glyph_y = 3, width = 1, height = 1,
               xoffset = 0, yoffset = 0, xadvance = 5\<rparr>"

definition sheet_A :: image where
  "sheet_A p = (if p = (2, 3) then 200 else 0)"

text \<open>
  Glyphs \<open>B\<close> and \<open>C\<close> with advances 6 and 7, a configuration for the range 65 to 67 with
  cells of one byte by one row and the character set \<open>{'A', 'C'}\<close>, and the state at the
  start of a run.
\<close>

definition glyph_B :: glyph where
  "glyph_B = \<lparr>glyph_id = 66, glyph_x = 4, glyph_y = 3, width = 1, height = 1,
               xoffset = 0, yoffset = 0, xadvance = 6\<rparr>"

definition glyph_C :: glyph where
  "glyph_C = \<lparr>glyph_id = 67, glyph_x = 6, glyph_y = 3, width = 1, height = 1,
               xoffset = 0, yoffset = 0, xadvance = 7\<rparr>"

definition config_AC :: config where
  "config_AC = \<lparr>font_input = ''font.fnt'', c_fontname = ''Font'', first_ascii = 65,
                 last_ascii = 67, bytes_width = 1, bytes_height = 1, crop_x = 0, crop_y = 0,
                 chars = Some {65, 67}, fixed_width = 0\<rparr>"

text \<open>
  A configuration for the single code point 65 whose strings file holds only a newline,
  so that \<open>chars\<close> is the empty set.
\<close>

definition config_blank :: config where
  "config_blank = \<lparr>font_input = ''font.fnt'', c_fontname = ''Font'', first_ascii = 65,
                    last_ascii = 65, bytes_width = 1, bytes_height = 1, crop_x = 0, crop_y = 0,
                    chars = config_chars (Some [10]), fixed_width = 0\<rparr>"

definition start_state :: run_state where
  "start_state = \<lparr>total_ram = 0, stdout = []\<rparr>"

section \<open>Arithmetic of byte boundaries\<close>

lemma mod8_Suc: "Suc n mod 8 = (if n mod 8 = 7 then 0 else Suc (n mod 8))"
proof -
  have "Suc n mod 8 = (if Suc (n mod 8) = 8 then 0 else Suc (n mod 8))" by (rule mod_Suc)
  then show ?thesis by simp
qed

lemma div8_Suc: "Suc n div 8 = (if n mod 8 = 7 then Suc (n div 8) else n div 8)"
proof -
  have "Suc n div 8 = (if Suc n mod 8 = 0 then Suc (n div 8) else n div 8)" by (rule div_Suc)
  then show ?thesis by (simp add: mod8_Suc)
qed

lemma small_ceil8: "r < 8 \<Longrightarrow> (r + 7) div 8 = (if r = 0 then 0 else (1::nat))"
proof (cases "r = 0")
  case True
  then show ?thesis by simp
next
  case False
  assume "r < 8"
  then have "8 * 1 \<le> r + 7" and "r + 7 < 8 * Suc 1" using False by simp_all
  then have "(r + 7) div 8 = 1" by (rule div_nat_eqI)
  then show ?thesis using False by simp
qed

lemma ceil8: "(n + 7) div 8 = (if n mod 8 = 0 then n div 8 else Suc (n div (8::nat)))"
proof -
  have r: "n mod 8 < 8" by simp
  have "n + 7 = (n mod 8 + 7) + n div 8 * 8" by simp
  then have "(n + 7) div 8 = (n mod 8 + 7) div 8 + n div 8" by (simp only: div_mult_self1 div_mult_self2 div_mult_self3 div_mult_self4)
  moreover have "(n mod 8 + 7) div 8 = (if n mod 8 = 0 then 0 else 1)" using r by (rule small_ceil8)
  ultimately show ?thesis by simp
qed

lemma below_bytes: "j < n div 8 \<Longrightarrow> 8 * j + 7 < (n::nat)"
proof -
  assume a: "j < n div 8"
  define q where "q = n div 8"
  have "8 * q \<le> n" unfolding q_def by simp
  moreover have "Suc j \<le> q" using a unfolding q_def by simp
  ultimately show ?thesis by linarith
qed

lemma last_byte:
  assumes "\<not> j < n div 8" and "j < (n + 7) div 8"
  shows "j = n div 8 \<and> n mod 8 \<noteq> (0::nat)"
proof (cases "n mod 8 = 0")
  case True
  then have "(n + 7) div 8 = n div 8" by (simp add: ceil8)
  then show ?thesis using assms by simp
next
  case False
  then have "(n + 7) div 8 = Suc (n div 8)" by (simp add: ceil8)
  then show ?thesis using assms False by simp
qed

lemma col_in_last: "i < 8 \<Longrightarrow> (8 - n mod 8 \<le> i \<longleftrightarrow> 8 * (n div 8) + 7 - i < (n::nat))"
proof -
  assume i: "i < 8"
  define q where "q = n div 8"
  define r where "r = n mod 8"
  have n: "n = 8 * q + r" unfolding q_def r_def by simp
  have r: "r < 8" unfolding r_def by simp
  have "8 - r \<le> i \<longleftrightarrow> 8 * q + 7 - i < 8 * q + r" using i r by linarith
  then show ?thesis unfolding q_def [symmetric] r_def [symmetric] using n by simp
qed

lemma col_at_mask: "n mod 8 < 8 \<Longrightarrow> 8 * (n div 8) + 7 - (7 - n mod 8) = (n::nat)"
proof -
  define q where "q = n div 8"
  define r where "r = n mod 8"
  assume "n mod 8 < 8"
  then have r: "r < 8" unfolding r_def .
  have n: "n = 8 * q + r" unfolding q_def r_def by simp
  have "8 * q + 7 - (7 - r) = 8 * q + r" using r by linarith
  then show ?thesis unfolding q_def [symmetric] r_def [symmetric] using n by simp
qed

lemma pow_half: "r < 7 \<Longrightarrow> (2::int) ^ (7 - r) div 2 = 2 ^ (7 - Suc r)"
proof -
  assume "r < 7"
  then have "7 - r = Suc (7 - Suc r)" by simp
  then have "(2::int) ^ (7 - r) = 2 * 2 ^ (7 - Suc r)" by (simp only: power_Suc)
  then show ?thesis by simp
qed

lemma ceil8_neg: "wd < 0 \<Longrightarrow> (wd + 7) div 8 \<le> (0::int)"
proof -
  assume "wd < 0"
  then have "wd + 7 \<le> 6" by simp
  then have "(wd + 7) div 8 \<le> 6 div 8" by (rule zdiv_mono1) simp
  then show ?thesis by simp
qed

lemma col_byte:
  assumes "0 \<le> x" and "x < wd"
  shows "0 \<le> x div 8 \<and> x div 8 < (wd + 7) div (8::int)"
proof -
  have a: "0 \<le> x div 8" using assms(1) by (simp add: pos_imp_zdiv_nonneg_iff)
  have "x + 8 \<le> wd + 7" using assms(2) by simp
  then have "(x + 8) div 8 \<le> (wd + 7) div 8" by (rule zdiv_mono1) simp
  moreover have "(x + 8) div 8 = x div 8 + 1" by simp
  ultimately show ?thesis using a by simp
qed

lemma ceil8_int: "0 \<le> wd \<Longrightarrow> int ((nat wd + 7) div 8) = (wd + 7) div 8"
  by (simp add: zdiv_int)

lemma col_of_bit:
  assumes "0 \<le> x"
  shows "int (8 * nat (x div 8) + 7 - (7 - nat (x mod 8))) = x"
proof -
  have xm: "0 \<le> x mod 8" and xl: "x mod 8 < 8" by simp_all
  have m8: "nat (x mod 8) < 8" using xl by simp
  have d: "0 \<le> x div 8" using assms by (simp add: pos_imp_zdiv_nonneg_iff)
  define j where "j = nat (x div 8)"
  define m where "m = nat (x mod 8)"
  have "8 * j + 7 - (7 - m) = 8 * j + m" using m8 unfolding m_def by linarith
  then have "int (8 * j + 7 - (7 - m)) = 8 * int j + int m" by simp
  also have "\<dots> = 8 * (x div 8) + x mod 8" unfolding j_def m_def using d xm by simp
  also have "\<dots> = x" by simp
  finally show ?thesis unfolding j_def m_def .
qed

section \<open>The row loop\<close>

lemma row_inv_init: "row_inv pix 0 \<lparr>comment = [], bytestring = [], byte = 0, maskv = 128\<rparr>"
  by (simp add: row_inv_def)

lemma upto_snoc: "[0..int (Suc n) - 1] = [0..int n - 1] @ [int n]"
  using upto_rec2 [of 0 "int n"] by simp

lemma row_inv_step_mid:
  assumes inv: "row_inv pix n st" and px: "(pixel_at g img (int n) y cx cy \<noteq> 0) = pix n"
    and r: "n mod 8 < 7"
  shows "row_inv pix (Suc n) (row_step g img y cx cy st (int n))"
proof -
  let ?r = "n mod 8"
  have r7: "?r \<noteq> 7" using r by simp
  have sm: "Suc n mod 8 = Suc ?r" using r7 by (simp only: mod8_Suc if_False)
  have sd: "Suc n div 8 = n div 8" using r7 by (simp only: div8_Suc if_False)
  have m: "maskv st = 2 ^ (7 - ?r)" using inv by (simp add: row_inv_def)
  have mh: "maskv st div 2 = 2 ^ (7 - Suc ?r)" using m pow_half [OF r] by simp
  have nz: "maskv st div 2 \<noteq> 0" using mh by simp
  have at_mask: "8 * (n div 8) + 7 - (7 - ?r) = n" by (rule col_at_mask) simp
  have old: "bit (byte st) i \<longleftrightarrow> i < 8 \<and> 8 - ?r \<le> i \<and> pix (8 * (n div 8) + 7 - i)" for i
    using inv by (simp add: row_inv_def)
  have bm: "bit (maskv st) i \<longleftrightarrow> i = 7 - ?r" for i
    unfolding m by (simp add: bit_simps)
  have rng: "i < 8 \<and> 8 - Suc ?r \<le> i \<longleftrightarrow> (i < 8 \<and> 8 - ?r \<le> i) \<or> i = 7 - ?r" for i
    using r by linarith
  define b where "b = (if pix n then byte st OR maskv st else byte st)"
  have step: "row_step g img y cx cy st (int n) =
      st\<lparr>comment := comment st @ (if pix n then ''O'' else if int n \<ge> xadvance g then ''.'' else ''-''),
         byte := b, maskv := maskv st div 2\<rparr>"
    using px nz by (simp add: row_step_def Let_def b_def)
  have bb: "bit b i \<longleftrightarrow> i < 8 \<and> 8 - Suc ?r \<le> i \<and> pix (8 * (n div 8) + 7 - i)" for i
  proof (cases "i = 7 - ?r")
    case True
    have "bit b i \<longleftrightarrow> pix n"
      unfolding b_def using True old [of i] bm [of i] r by (simp add: bit_simps)
    moreover have "8 * (n div 8) + 7 - i = n" using True at_mask by simp
    moreover have "i < 8 \<and> 8 - Suc ?r \<le> i" using rng [of i] True by simp
    ultimately show ?thesis by simp
  next
    case False
    have "bit b i \<longleftrightarrow> bit (byte st) i"
      unfolding b_def using False bm [of i] by (simp add: bit_simps)
    then show ?thesis using old [of i] rng [of i] False by blast
  qed
  have keep: "length (bytestring st) = n div 8"
    "\<forall>j < n div 8. \<forall>i. bit (bytestring st ! j) i \<longleftrightarrow> i < 8 \<and> pix (8 * j + 7 - i)"
    using inv by (simp_all add: row_inv_def)
  show ?thesis
    unfolding row_inv_def step sm sd using mh keep bb by simp
qed

lemma row_inv_step_last:
  assumes inv: "row_inv pix n st" and px: "(pixel_at g img (int n) y cx cy \<noteq> 0) = pix n"
    and r: "n mod 8 = 7"
  shows "row_inv pix (Suc n) (row_step g img y cx cy st (int n))"
proof -
  have sm: "Suc n mod 8 = 0" using r by (simp add: mod8_Suc)
  have sd: "Suc n div 8 = Suc (n div 8)" using r by (simp add: div8_Suc)
  have m: "maskv st = 1" using inv r by (simp add: row_inv_def)
  have at_mask: "8 * (n div 8) + 7 - (7 - n mod 8) = n" by (rule col_at_mask) simp
  then have n_eq: "8 * (n div 8) + 7 = n" using r by simp
  have old: "bit (byte st) i \<longleftrightarrow> i < 8 \<and> 1 \<le> i \<and> pix (8 * (n div 8) + 7 - i)" for i
    using inv r by (simp add: row_inv_def)
  define b where "b = (if pix n then byte st OR maskv st else byte st)"
  have step: "row_step g img y cx cy st (int n) =
      st\<lparr>comment := comment st @ (if pix n then ''O'' else if int n \<ge> xadvance g then ''.'' else ''-''),
         bytestring := bytestring st @ [b], maskv := 128, byte := 0\<rparr>"
    using px m by (simp add: row_step_def Let_def b_def)
  have bb: "bit b i \<longleftrightarrow> i < 8 \<and> pix (8 * (n div 8) + 7 - i)" for i
  proof (cases "i = 0")
    case True
    have "bit b 0 \<longleftrightarrow> pix n" unfolding b_def m using old [of 0] by (simp add: bit_simps)
    then show ?thesis using True n_eq by simp
  next
    case False
    have "bit b i \<longleftrightarrow> bit (byte st) i" unfolding b_def m using False by (simp add: bit_simps)
    then show ?thesis using old [of i] False by auto
  qed
  have old_bytes: "\<forall>j < n div 8. \<forall>i. bit (bytestring st ! j) i \<longleftrightarrow> i < 8 \<and> pix (8 * j + 7 - i)"
    and len: "length (bytestring st) = n div 8"
    using inv by (simp_all add: row_inv_def)
  have all: "bit ((bytestring st @ [b]) ! j) i \<longleftrightarrow> i < 8 \<and> pix (8 * j + 7 - i)"
    if "j < Suc (n div 8)" for j i
  proof (cases "j < n div 8")
    case True
    then show ?thesis using old_bytes len by (simp add: nth_append)
  next
    case False
    then have "j = n div 8" using that by simp
    then show ?thesis using len bb by (simp add: nth_append)
  qed
  show ?thesis
    unfolding row_inv_def step sm sd using len all by simp
qed

lemma row_inv_step:
  assumes "row_inv pix n st" and "(pixel_at g img (int n) y cx cy \<noteq> 0) = pix n"
  shows "row_inv pix (Suc n) (row_step g img y cx cy st (int n))"
proof (cases "n mod 8 = 7")
  case True
  with assms show ?thesis by (rule row_inv_step_last)
next
  case False
  have "n mod 8 < 8" by simp
  then have "n mod 8 < 7" using False by simp
  with assms show ?thesis by (rule row_inv_step_mid)
qed

lemma row_loop_inv:
  "row_inv (row_pix g img y cx cy) n
     (foldl (row_step g img y cx cy) \<lparr>comment = [], bytestring = [], byte = 0, maskv = 128\<rparr>
        [0..int n - 1])"
proof (induction n)
  case 0
  show ?case by (simp add: row_inv_init)
next
  case (Suc n)
  have "(pixel_at g img (int n) y cx cy \<noteq> 0) = row_pix g img y cx cy n"
    by (simp add: row_pix_def)
  with Suc have "row_inv (row_pix g img y cx cy) (Suc n)
     (row_step g img y cx cy
        (foldl (row_step g img y cx cy) \<lparr>comment = [], bytestring = [], byte = 0, maskv = 128\<rparr>
           [0..int n - 1]) (int n))"
    by (rule row_inv_step)
  then show ?case unfolding upto_snoc foldl_append by simp
qed

lemma row_inv_mask:
  assumes "row_inv pix n st"
  shows "maskv st \<noteq> 128 \<longleftrightarrow> n mod 8 \<noteq> 0"
proof (cases "n mod 8 = 0")
  case True
  then show ?thesis using assms by (simp add: row_inv_def)
next
  case False
  then have "7 - n mod 8 < 7" by simp
  then have "(2::int) ^ (7 - n mod 8) < 2 ^ 7"
    by (simp only: power_strict_increasing_iff one_less_numeral_iff semiring_norm)
  then show ?thesis using assms False by (simp add: row_inv_def)
qed

lemma row_inv_final_length:
  assumes "row_inv pix n st"
  shows "length (if maskv st \<noteq> 128 then bytestring st @ [byte st] else bytestring st) = (n + 7) div 8"
proof -
  have "length (bytestring st) = n div 8" using assms by (simp add: row_inv_def)
  then show ?thesis by (simp add: row_inv_mask [OF assms] ceil8)
qed

lemma row_inv_final_bit:
  assumes inv: "row_inv pix n st" and j: "j < (n + 7) div 8"
  shows "bit ((if maskv st \<noteq> 128 then bytestring st @ [byte st] else bytestring st) ! j) i
          \<longleftrightarrow> i < 8 \<and> 8 * j + 7 - i < n \<and> pix (8 * j + 7 - i)"
proof (cases "j < n div 8")
  case True
  then have "8 * j + 7 < n" by (rule below_bytes)
  then have lt: "8 * j + 7 - i < n" by simp
  have "bit (bytestring st ! j) i \<longleftrightarrow> i < 8 \<and> pix (8 * j + 7 - i)"
    using inv True by (simp add: row_inv_def)
  moreover have "length (bytestring st) = n div 8" using inv by (simp add: row_inv_def)
  ultimately show ?thesis using True lt by (simp add: nth_append)
next
  case False
  have jq: "j = n div 8" and nz: "n mod 8 \<noteq> 0" using last_byte [OF False j] by simp_all
  have ne: "maskv st \<noteq> 128" using nz by (simp add: row_inv_mask [OF inv])
  have len: "length (bytestring st) = n div 8" using inv by (simp add: row_inv_def)
  have b: "bit (byte st) i \<longleftrightarrow> i < 8 \<and> 8 - n mod 8 \<le> i \<and> pix (8 * (n div 8) + 7 - i)"
    using inv by (simp add: row_inv_def)
  have sel: "(if maskv st \<noteq> 128 then bytestring st @ [byte st] else bytestring st) ! j = byte st"
    using ne len jq by (simp add: nth_append)
  have "i < 8 \<and> 8 - n mod 8 \<le> i \<and> pix (8 * (n div 8) + 7 - i)
        \<longleftrightarrow> i < 8 \<and> 8 * (n div 8) + 7 - i < n \<and> pix (8 * (n div 8) + 7 - i)"
    using col_in_last [of i n] by blast
  then show ?thesis using sel b jq by simp
qed

lemma make_row_unfold:
  "0 \<le> wd \<Longrightarrow> row_bytes (make_row g img wd y cx cy) =
     (let st = foldl (row_step g img y cx cy) \<lparr>comment = [], bytestring = [], byte = 0, maskv = 128\<rparr>
        [0..int (nat wd) - 1]
      in if maskv st \<noteq> 128 then bytestring st @ [byte st] else bytestring st)"
  by (simp add: make_row_def Let_def)

lemma length_make_row:
  "length (row_bytes (make_row g img wd y cx cy)) = nat ((wd + 7) div 8)"
proof (cases "0 \<le> wd")
  case True
  have "length (row_bytes (make_row g img wd y cx cy)) = (nat wd + 7) div 8"
    unfolding make_row_unfold [OF True] Let_def
    by (rule row_inv_final_length [OF row_loop_inv])
  then show ?thesis using ceil8_int [OF True] by simp
next
  case False
  then have "[0..wd - 1] = []" by simp
  moreover have "(wd + 7) div 8 \<le> 0" using False by (simp add: ceil8_neg)
  ultimately show ?thesis by (simp add: make_row_def)
qed

lemma bit_make_row:
  assumes j: "j < length (row_bytes (make_row g img wd y cx cy))"
  shows "bit (row_bytes (make_row g img wd y cx cy) ! j) i
          \<longleftrightarrow> i < 8 \<and> int (8 * j + 7 - i) < wd \<and> pixel_at g img (int (8 * j + 7 - i)) y cx cy \<noteq> 0"
proof -
  have pos: "0 \<le> wd"
  proof (rule ccontr)
    assume "\<not> 0 \<le> wd"
    then have "(wd + 7) div 8 \<le> 0" by (simp add: ceil8_neg)
    then show False using j by (simp add: length_make_row)
  qed
  have j': "j < (nat wd + 7) div 8" using j ceil8_int [OF pos] by (simp add: length_make_row)
  have "bit (row_bytes (make_row g img wd y cx cy) ! j) i
          \<longleftrightarrow> i < 8 \<and> 8 * j + 7 - i < nat wd \<and> row_pix g img y cx cy (8 * j + 7 - i)"
    unfolding make_row_unfold [OF pos] Let_def
    by (rule row_inv_final_bit [OF row_loop_inv j'])
  moreover have "8 * j + 7 - i < nat wd \<longleftrightarrow> int (8 * j + 7 - i) < wd"
    using pos by (simp add: zless_nat_eq_int_zless [symmetric] nat_less_iff)
  ultimately show ?thesis by (simp add: row_pix_def)
qed

section \<open>Rows of a glyph\<close>

lemma length_concat_same:
  "(\<forall>xs \<in> set xss. length xs = n) \<Longrightarrow> length (concat xss) = length xss * n"
  by (induction xss) simp_all

lemma nth_concat_same:
  "(\<forall>xs \<in> set xss. length xs = n) \<Longrightarrow> i < length xss \<Longrightarrow> j < n \<Longrightarrow>
     concat xss ! (i * n + j) = xss ! i ! j"
proof (induction xss arbitrary: i)
  case Nil
  then show ?case by simp
next
  case (Cons xs xss)
  show ?case
  proof (cases i)
    case 0
    then show ?thesis using Cons.prems by (simp add: nth_append)
  next
    case (Suc k)
    then have "concat xss ! (k * n + j) = xss ! k ! j" using Cons by simp
    moreover have "Suc k * n + j = n + (k * n + j)" by simp
    ultimately show ?thesis using Suc Cons.prems by (simp add: nth_append)
  qed
qed

lemma take_drop_concat_same:
  "(\<forall>xs \<in> set xss. length xs = n) \<Longrightarrow> i < length xss \<Longrightarrow>
     take n (drop (i * n) (concat xss)) = xss ! i"
proof (induction xss arbitrary: i)
  case Nil
  then show ?case by simp
next
  case (Cons xs xss)
  show ?case
  proof (cases i)
    case 0
    then show ?thesis using Cons.prems by simp
  next
    case (Suc k)
    then have "take n (drop (k * n) (concat xss)) = xss ! k" using Cons by simp
    then show ?thesis using Suc Cons.prems by simp
  qed
qed

lemma rows_makeBitmapCode:
  "length (rows (makeBitmapCode g img wd ht cx cy)) = nat ht"
  by (simp add: makeBitmapCode_def)

lemma nth_rows_makeBitmapCode:
  "y < nat ht \<Longrightarrow> rows (makeBitmapCode g img wd ht cx cy) ! y = make_row g img wd (int y) cx cy"
  by (simp add: makeBitmapCode_def)

lemma rows_same_length:
  "\<forall>bs \<in> set (map row_bytes (rows (makeBitmapCode g img wd ht cx cy))).
     length bs = nat ((wd + 7) div 8)"
  by (auto simp add: makeBitmapCode_def length_make_row)

lemma length_code_bytes:
  "length (code_bytes (makeBitmapCode g img wd ht cx cy)) = nat ht * nat ((wd + 7) div 8)"
  unfolding code_bytes_def
  using length_concat_same [OF rows_same_length]
  by (simp add: rows_makeBitmapCode)

lemma code_bytes_row:
  assumes "y < nat ht"
  shows "take (nat ((wd + 7) div 8)) (drop (y * nat ((wd + 7) div 8))
           (code_bytes (makeBitmapCode g img wd ht cx cy)))
         = row_bytes (make_row g img wd (int y) cx cy)"
  unfolding code_bytes_def
  using take_drop_concat_same [where i = y, OF rows_same_length] assms
  by (simp add: rows_makeBitmapCode nth_rows_makeBitmapCode)

lemma code_bytes_nth:
  assumes "y < nat ht" and "j < nat ((wd + 7) div 8)"
  shows "code_bytes (makeBitmapCode g img wd ht cx cy) ! (y * nat ((wd + 7) div 8) + j)
         = row_bytes (make_row g img wd (int y) cx cy) ! j"
  unfolding code_bytes_def
  using nth_concat_same [where i = y and j = j, OF rows_same_length] assms
  by (simp add: rows_makeBitmapCode nth_rows_makeBitmapCode)

lemma byte_range:
  assumes "\<And>i. bit (b::int) i \<Longrightarrow> i < 8"
  shows "0 \<le> b \<and> b < 256"
proof -
  have "take_bit 8 b = b"
    by (rule bit_eqI) (use assms in \<open>auto simp add: bit_take_bit_iff\<close>)
  moreover have "0 \<le> take_bit 8 b" by simp
  moreover have "take_bit 8 b < 2 ^ 8" by (rule take_bit_int_less_exp)
  ultimately show ?thesis by simp
qed

lemma low_bits_zero:
  assumes "\<And>i. i < 3 \<Longrightarrow> \<not> bit (b::int) i"
  shows "b AND 7 = 0"
proof -
  have "(7::int) = mask 3" by (simp add: mask_eq_exp_minus_1)
  then have "b AND 7 = take_bit 3 b" by (simp add: take_bit_eq_mask)
  moreover have "take_bit 3 b = 0"
    by (rule bit_eqI) (use assms in \<open>auto simp add: bit_take_bit_iff\<close>)
  ultimately show ?thesis by simp
qed

lemma make_row_byte_range:
  assumes "j < length (row_bytes (make_row g img wd y cx cy))"
  shows "0 \<le> row_bytes (make_row g img wd y cx cy) ! j \<and> row_bytes (make_row g img wd y cx cy) ! j < 256"
  by (rule byte_range) (simp add: bit_make_row [OF assms])

section \<open>Claims about the rasterizer\<close>

lemma pixel_at_iff:
  "pixel_at g img x y cx cy \<noteq> 0 \<longleftrightarrow>
     (0 \<le> x - xoffset g + cx \<and> x - xoffset g + cx < width g \<and>
      0 \<le> y - yoffset g + cy \<and> y - yoffset g + cy < height g \<and>
      img (glyph_x g + (x - xoffset g + cx), glyph_y g + (y - yoffset g + cy)) > 127)"
  unfolding pixel_at_def Let_def add.commute [of "glyph_x g"] add.commute [of "glyph_y g"]
  by auto

text \<open>
  Claim C1. For target row \<open>y\<close> in \<open>[0, ht)\<close> and column \<open>x\<close> in \<open>[0, wd)\<close>, the bit of
  the rasterized output for \<open>(x, y)\<close> is bit \<open>7 - x mod 8\<close> of byte
  \<open>y * ceil(wd / 8) + x div 8\<close>. It is 1 exactly when the source coordinates
  \<open>x - xoffset + crop_x\<close> and \<open>y - yoffset + crop_y\<close> lie inside the glyph and the sample
  at the glyph's sheet position plus the source coordinates exceeds 127; otherwise it is 0.
\<close>

theorem rasterize_bit:
  assumes "0 \<le> y" and "y < ht" and "0 \<le> x" and "x < wd"
  shows "nat y * nat ((wd + 7) div 8) + nat (x div 8)
           < length (code_bytes (makeBitmapCode g img wd ht cx cy)) \<and>
         (bit (code_bytes (makeBitmapCode g img wd ht cx cy)
                 ! (nat y * nat ((wd + 7) div 8) + nat (x div 8))) (7 - nat (x mod 8))
          \<longleftrightarrow> (0 \<le> x - xoffset g + cx \<and> x - xoffset g + cx < width g \<and>
               0 \<le> y - yoffset g + cy \<and> y - yoffset g + cy < height g \<and>
               img (glyph_x g + (x - xoffset g + cx), glyph_y g + (y - yoffset g + cy)) > 127))"
proof -
  let ?nb = "nat ((wd + 7) div 8)"
  let ?j = "nat (x div 8)"
  let ?i = "7 - nat (x mod 8)"
  have y': "nat y < nat ht" using assms by simp
  have cb: "0 \<le> x div 8 \<and> x div 8 < (wd + 7) div 8" using assms(3,4) by (rule col_byte)
  then have j': "?j < ?nb" by simp
  have "Suc (nat y) \<le> nat ht" using y' by (rule Suc_leI)
  then have le: "Suc (nat y) * ?nb \<le> nat ht * ?nb" by (rule mult_le_mono1)
  have "nat y * ?nb + ?j < Suc (nat y) * ?nb" using j' by simp
  then have "nat y * ?nb + ?j < nat ht * ?nb" using le by (rule less_le_trans)
  then have idx: "nat y * ?nb + ?j < length (code_bytes (makeBitmapCode g img wd ht cx cy))"
    by (simp only: length_code_bytes)
  have yy: "int (nat y) = y" using assms(1) by simp
  have jl: "?j < length (row_bytes (make_row g img wd y cx cy))"
    using j' by (simp add: length_make_row)
  have col: "int (8 * ?j + 7 - ?i) = x" using assms(3) by (rule col_of_bit)
  have i8: "?i < 8" by simp
  have e1: "code_bytes (makeBitmapCode g img wd ht cx cy) ! (nat y * ?nb + ?j)
            = row_bytes (make_row g img wd y cx cy) ! ?j"
    using code_bytes_nth [OF y' j', of g img cx cy] yy by simp
  have e2: "bit (row_bytes (make_row g img wd y cx cy) ! ?j) ?i
        \<longleftrightarrow> ?i < 8 \<and> x < wd \<and> pixel_at g img x y cx cy \<noteq> 0"
    using bit_make_row [OF jl, of ?i] unfolding col .
  have "bit (code_bytes (makeBitmapCode g img wd ht cx cy) ! (nat y * ?nb + ?j)) ?i
        \<longleftrightarrow> pixel_at g img x y cx cy \<noteq> 0"
    unfolding e1 e2 using i8 assms(4) by simp
  then show ?thesis using idx by (simp only: pixel_at_iff simp_thms)
qed

theorem rasterize_bit_witness:
  "(0::int) \<le> 0 \<and> (0::int) < 1 \<and> (0::int) < 8 \<and>
   bit (code_bytes (makeBitmapCode glyph_A sheet_A 8 1 0 0) ! 0) 7"
  using rasterize_bit [of 0 1 0 8 glyph_A sheet_A 0 0]
  by (simp add: glyph_A_def sheet_A_def)

text \<open>
  Claim C2. For \<open>wd \<ge> 1\<close> and \<open>ht \<ge> 1\<close> the rasterized output has
  \<open>ceil(wd / 8) * ht\<close> bytes. Row \<open>y\<close> is the slice of \<open>ceil(wd / 8)\<close> bytes starting at
  \<open>y * ceil(wd / 8)\<close>; every byte is in \<open>[0, 256)\<close>; column \<open>8 * j + k\<close> of the row is bit
  \<open>7 - k\<close> of its byte \<open>j\<close>, and the bits of columns at or beyond \<open>wd\<close> are 0. For
  \<open>wd = 13\<close> each row has 2 bytes and the low 3 bits of the second are 0.
\<close>

theorem rasterize_packing:
  assumes "1 \<le> wd" and "1 \<le> ht"
  shows "length (code_bytes (makeBitmapCode g img wd ht cx cy)) = nat ((wd + 7) div 8) * nat ht \<and>
         length (rows (makeBitmapCode g img wd ht cx cy)) = nat ht \<and>
         (\<forall>y < nat ht.
            row_bytes (rows (makeBitmapCode g img wd ht cx cy) ! y)
              = take (nat ((wd + 7) div 8)) (drop (y * nat ((wd + 7) div 8))
                  (code_bytes (makeBitmapCode g img wd ht cx cy))) \<and>
            length (row_bytes (rows (makeBitmapCode g img wd ht cx cy) ! y)) = nat ((wd + 7) div 8) \<and>
            (\<forall>j < nat ((wd + 7) div 8).
               0 \<le> row_bytes (rows (makeBitmapCode g img wd ht cx cy) ! y) ! j \<and>
               row_bytes (rows (makeBitmapCode g img wd ht cx cy) ! y) ! j < 256 \<and>
               (\<forall>k < 8.
                  bit (row_bytes (rows (makeBitmapCode g img wd ht cx cy) ! y) ! j) (7 - k)
                  \<longleftrightarrow> int (8 * j + k) < wd \<and> pixel_at g img (int (8 * j + k)) (int y) cx cy \<noteq> 0)) \<and>
            (wd = 13 \<longrightarrow>
               length (row_bytes (rows (makeBitmapCode g img wd ht cx cy) ! y)) = 2 \<and>
               row_bytes (rows (makeBitmapCode g img wd ht cx cy) ! y) ! 1 AND 7 = 0))"
proof -
  let ?nb = "nat ((wd + 7) div 8)"
  let ?M = "makeBitmapCode g img wd ht cx cy"
  have len: "length (code_bytes ?M) = ?nb * nat ht"
    by (simp add: length_code_bytes)
  have rws: "length (rows ?M) = nat ht" by (rule rows_makeBitmapCode)
  have per_row: "row_bytes (rows ?M ! y) = take ?nb (drop (y * ?nb) (code_bytes ?M)) \<and>
            length (row_bytes (rows ?M ! y)) = ?nb \<and>
            (\<forall>j < ?nb.
               0 \<le> row_bytes (rows ?M ! y) ! j \<and> row_bytes (rows ?M ! y) ! j < 256 \<and>
               (\<forall>k < 8. bit (row_bytes (rows ?M ! y) ! j) (7 - k)
                  \<longleftrightarrow> int (8 * j + k) < wd \<and> pixel_at g img (int (8 * j + k)) (int y) cx cy \<noteq> 0)) \<and>
            (wd = 13 \<longrightarrow> length (row_bytes (rows ?M ! y)) = 2 \<and> row_bytes (rows ?M ! y) ! 1 AND 7 = 0)"
    if y: "y < nat ht" for y
  proof -
    let ?R = "row_bytes (make_row g img wd (int y) cx cy)"
    have r: "rows ?M ! y = make_row g img wd (int y) cx cy"
      using y by (rule nth_rows_makeBitmapCode)
    have a: "?R = take ?nb (drop (y * ?nb) (code_bytes ?M))"
      using code_bytes_row [OF y] by simp
    have b: "length ?R = ?nb" by (rule length_make_row)
    have c: "0 \<le> ?R ! j \<and> ?R ! j < 256 \<and>
               (\<forall>k < 8. bit (?R ! j) (7 - k)
                  \<longleftrightarrow> int (8 * j + k) < wd \<and> pixel_at g img (int (8 * j + k)) (int y) cx cy \<noteq> 0)"
      if j: "j < ?nb" for j
    proof -
      have jl: "j < length ?R" using j b by simp
      have "bit (?R ! j) (7 - k)
                  \<longleftrightarrow> int (8 * j + k) < wd \<and> pixel_at g img (int (8 * j + k)) (int y) cx cy \<noteq> 0"
        if "k < 8" for k
      proof -
        have e: "8 * j + 7 - (7 - k) = 8 * j + k" using that by simp
        have l: "7 - k < 8" by simp
        show ?thesis unfolding bit_make_row [OF jl] e using l by blast
      qed
      then show ?thesis using make_row_byte_range [OF jl] by simp
    qed
    have d: "length ?R = 2 \<and> ?R ! 1 AND 7 = 0" if w: "wd = 13"
    proof -
      have l2: "length ?R = 2" using b w by simp
      then have j1: "1 < length ?R" by simp
      have "\<not> bit (?R ! 1) i" if "i < 3" for i
        unfolding bit_make_row [OF j1] using that w by simp
      then have "?R ! 1 AND 7 = 0" by (rule low_bits_zero)
      then show ?thesis using l2 by simp
    qed
    show ?thesis unfolding r using a b c d by blast
  qed
  show ?thesis using len rws per_row by blast
qed

theorem rasterize_packing_witness:
  "(1::int) \<le> 13 \<and> (1::int) \<le> 2 \<and>
   length (code_bytes (makeBitmapCode glyph_A sheet_A 13 2 0 0)) = 4 \<and>
   row_bytes (rows (makeBitmapCode glyph_A sheet_A 13 2 0 0) ! 1) ! 1 AND 7 = 0"
proof -
  have p: "(1::int) \<le> 13" "(1::int) \<le> 2" by simp_all
  note r = rasterize_packing [OF p, of glyph_A sheet_A 0 0]
  have a: "length (code_bytes (makeBitmapCode glyph_A sheet_A 13 2 0 0)) = 4"
    using r by simp
  have "(1::nat) < nat 2" by simp
  with r have "(13::int) = 13 \<longrightarrow>
               length (row_bytes (rows (makeBitmapCode glyph_A sheet_A 13 2 0 0) ! 1)) = 2 \<and>
               row_bytes (rows (makeBitmapCode glyph_A sheet_A 13 2 0 0) ! 1) ! 1 AND 7 = 0"
    by blast
  then show ?thesis using a p by simp
qed

section \<open>The loops over the ascii range\<close>

lemma chr_py_valid: "0 \<le> c \<Longrightarrow> c < 1114112 \<Longrightarrow> chr_py c = Inr c"
  by (simp add: chr_py_def)

lemma resolved_Some: "find_glyph glyphs c = Some g \<Longrightarrow> resolved glyphs c = g"
  by (simp add: resolved_def)

lemma resolved_None: "find_glyph (g # gs) c = None \<Longrightarrow> resolved (g # gs) c = g"
  by (simp add: resolved_def)

lemma bitmaps_loop_result:
  assumes "glyphs \<noteq> []" and "\<forall>c \<in> set cs. 0 \<le> c \<and> c < 1114112"
  shows "bitmaps_loop config img glyphs cs s st =
           Inr (s @ map (item_for config img glyphs) (emitted config cs),
                st\<lparr>stdout := stdout st @ map NoGlyphInfo (missing config glyphs cs)\<rparr>)"
  using assms(2)
proof (induction cs arbitrary: s st)
  case Nil
  show ?case by (simp add: emitted_def missing_def)
next
  case (Cons c cs)
  obtain g gs where gl: "glyphs = g # gs" using assms(1) by (cases glyphs) auto
  have c: "chr_py c = Inr c" using Cons.prems by (simp add: chr_py_valid)
  have rest: "\<forall>c \<in> set cs. 0 \<le> c \<and> c < 1114112" using Cons.prems by simp
  note IH = Cons.IH [OF rest]
  show ?case
  proof (cases "skipped config c")
    case True
    then show ?thesis using c IH by (simp add: emitted_def missing_def)
  next
    case False
    show ?thesis
    proof (cases "find_glyph glyphs c")
      case None
      then have "resolved glyphs c = g" using gl by (simp add: resolved_None)
      then show ?thesis
        using c False None gl IH by (simp add: emitted_def missing_def item_for_def)
    next
      case (Some g')
      then have "resolved glyphs c = g'" by (rule resolved_Some)
      then show ?thesis
        using c False Some IH by (simp add: emitted_def missing_def item_for_def)
    qed
  qed
qed

lemma widths_loop_result:
  assumes "glyphs \<noteq> []" and "\<forall>c \<in> set cs. 0 \<le> c \<and> c < 1114112"
  shows "widths_loop config glyphs cs s =
           Inr (s @ map (\<lambda>c. xadvance (resolved glyphs c)) (emitted config cs))"
  using assms(2)
proof (induction cs arbitrary: s)
  case Nil
  show ?case by (simp add: emitted_def)
next
  case (Cons c cs)
  obtain g gs where gl: "glyphs = g # gs" using assms(1) by (cases glyphs) auto
  have c: "chr_py c = Inr c" using Cons.prems by (simp add: chr_py_valid)
  have rest: "\<forall>c \<in> set cs. 0 \<le> c \<and> c < 1114112" using Cons.prems by simp
  note IH = Cons.IH [OF rest]
  show ?case
  proof (cases "skipped config c")
    case True
    then show ?thesis using c IH by (simp add: emitted_def)
  next
    case False
    show ?thesis
    proof (cases "find_glyph glyphs c")
      case None
      then have "resolved glyphs c = g" using gl by (simp add: resolved_None)
      then show ?thesis
        using c False None gl IH by (simp add: emitted_def makeWidthCode_def)
    next
      case (Some g')
      then have "resolved glyphs c = g'" by (rule resolved_Some)
      then show ?thesis
        using c False Some IH by (simp add: emitted_def makeWidthCode_def)
    qed
  qed
qed

lemma offset_items_Nil: "offset_items config [] n = []"
  by (simp add: offset_items_def)

lemma offset_items_Cons:
  "offset_items config (c # cs) n =
     (if selected config c then n # offset_items config cs (n + 1)
      else - 1 # offset_items config cs n)"
proof -
  have "[0..<length (c # cs)] = 0 # map Suc [0..<length cs]"
    by (simp add: upt_conv_Cons map_Suc_upt del: upt_Suc)
  then show ?thesis
    by (simp add: offset_items_def dense_index_def comp_def del: upt_Suc)
qed

lemma offsets_loop_result:
  assumes "\<forall>c \<in> set cs. 0 \<le> c \<and> c < 1114112"
  shows "offsets_loop config cs s n = Inr (s @ offset_items config cs n)"
  using assms
proof (induction cs arbitrary: s n)
  case Nil
  show ?case by (simp add: offset_items_Nil)
next
  case (Cons c cs)
  have c: "chr_py c = Inr c" using Cons.prems by (simp add: chr_py_valid)
  have rest: "\<forall>c \<in> set cs. 0 \<le> c \<and> c < 1114112" using Cons.prems by simp
  note IH = Cons.IH [OF rest]
  show ?case using c IH by (simp add: offset_items_Cons)
qed

lemma range_valid:
  "0 \<le> first_ascii config \<Longrightarrow> last_ascii config < 1114112 \<Longrightarrow>
     \<forall>c \<in> set [first_ascii config..last_ascii config]. 0 \<le> c \<and> c < 1114112"
  by simp

section \<open>The tables of one font\<close>

lemma makeBitmapsTable_result:
  assumes "glyphs \<noteq> []" and "0 \<le> first_ascii config" and "last_ascii config < 1114112"
  shows "makeBitmapsTable config img glyphs st =
           Inr (map (item_for config img glyphs)
                  (emitted config [first_ascii config..last_ascii config]),
                st\<lparr>total_ram := total_ram st
                       + (last_ascii config - first_ascii config + 1) * bytes_width config
                         * bytes_height config,
                   stdout := stdout st
                       @ map NoGlyphInfo
                           (missing config glyphs [first_ascii config..last_ascii config])\<rparr>)"
  unfolding makeBitmapsTable_def Let_def
  by (simp add: bitmaps_loop_result [OF assms(1) range_valid [OF assms(2,3)]])

lemma makeWidthsTable_result:
  assumes "glyphs \<noteq> []" and "0 \<le> first_ascii config" and "last_ascii config < 1114112"
  shows "makeWidthsTable config glyphs st =
           Inr (\<lparr>declared_count = last_ascii config - first_ascii config + 1,
                 width_items = map (\<lambda>c. xadvance (resolved glyphs c))
                                 (emitted config [first_ascii config..last_ascii config])\<rparr>,
                st\<lparr>total_ram := total_ram st + (last_ascii config - first_ascii config + 1)\<rparr>)"
  unfolding makeWidthsTable_def Let_def
  by (simp add: widths_loop_result [OF assms(1) range_valid [OF assms(2,3)]])

lemma makeBitmapsOffsetTable_result:
  assumes "0 \<le> first_ascii config" and "last_ascii config < 1114112"
  shows "makeBitmapsOffsetTable config =
           Inr (offset_items config [first_ascii config..last_ascii config] 0)"
  unfolding makeBitmapsOffsetTable_def
  by (simp add: offsets_loop_result [OF range_valid [OF assms]])

lemma makeFontSource_result:
  assumes "glyphs \<noteq> []" and "0 \<le> first_ascii config" and "last_ascii config < 1114112"
  shows "makeFontSource config img glyphs st =
           Inr (\<lparr>bitmaps = map (item_for config img glyphs)
                              (emitted config [first_ascii config..last_ascii config]),
                 widths = (if fixed_width config = 0
                           then Some \<lparr>declared_count = last_ascii config - first_ascii config + 1,
                                      width_items = map (\<lambda>c. xadvance (resolved glyphs c))
                                        (emitted config [first_ascii config..last_ascii config])\<rparr>
                           else None),
                 offsets = (if truthy (chars config)
                            then Some (offset_items config [first_ascii config..last_ascii config] 0)
                            else None),
                 style = makeFontStyleDecl config\<rparr>,
                st\<lparr>total_ram := total_ram st
                       + (last_ascii config - first_ascii config + 1) * bytes_width config
                         * bytes_height config
                       + (if fixed_width config = 0
                          then last_ascii config - first_ascii config + 1 else 0),
                   stdout := stdout st
                       @ map NoGlyphInfo
                           (missing config glyphs [first_ascii config..last_ascii config])\<rparr>)"
  unfolding makeFontSource_def
  by (simp add: makeBitmapsTable_result [OF assms] makeWidthsTable_result [OF assms]
        makeBitmapsOffsetTable_result [OF assms(2,3)])

lemma cell_width: "nat ((bw * 8 + 7) div 8) = nat (bw::int)"
proof -
  have "(bw * 8 + 7) div 8 = bw + 7 div 8" by (simp only: div_mult_self3)
  then show ?thesis by simp
qed

lemma length_item_bytes:
  "length (code_bytes (item_code (item_for config img glyphs c)))
     = nat (bytes_width config) * nat (bytes_height config)"
  by (simp add: item_for_def length_code_bytes cell_width mult.commute)


lemma length_table_bytes:
  "length (table_bytes (map (item_for config img glyphs) cs))
     = length cs * (nat (bytes_width config) * nat (bytes_height config))"
proof -
  have "\<forall>bs \<in> set (map (\<lambda>item. code_bytes (item_code item)) (map (item_for config img glyphs) cs)).
          length bs = nat (bytes_width config) * nat (bytes_height config)"
    by (auto simp add: length_item_bytes)
  then have "length (concat (map (\<lambda>item. code_bytes (item_code item))
                 (map (item_for config img glyphs) cs)))
             = length (map (\<lambda>item. code_bytes (item_code item)) (map (item_for config img glyphs) cs))
               * (nat (bytes_width config) * nat (bytes_height config))"
    by (rule length_concat_same)
  then show ?thesis by (simp add: table_bytes_def)
qed

section \<open>Claims about the tables of one font\<close>

lemma range_AC: "[first_ascii config_AC..last_ascii config_AC] = [65, 66, 67]"
  by (simp add: config_AC_def upto_rec1)

lemma emitted_AC: "emitted config_AC [65, 66, 67] = [65, 67]"
  by (simp add: emitted_def skipped_def config_AC_def)

lemma resolved_ABC:
  "resolved [glyph_A, glyph_B, glyph_C] 65 = glyph_A"
  "resolved [glyph_A, glyph_B, glyph_C] 67 = glyph_C"
  by (simp_all add: resolved_def find_glyph_def glyph_A_def glyph_B_def glyph_C_def)

text \<open>
  Claim C3 fails as stated: with \<open>fixed_width = 0\<close>, the range 65 to 67 and the characters
  \<open>{'A', 'C'}\<close>, the widths table is declared with size 3 and has the two items of
  \<open>A\<close> and \<open>C\<close>; code point 66 has no entry.
\<close>

theorem widths_table_counterexample:
  "fixed_width config_AC = 0 \<and>
   length [first_ascii config_AC..last_ascii config_AC] = 3 \<and>
   makeWidthsTable config_AC [glyph_A, glyph_B, glyph_C] start_state
     = Inr (\<lparr>declared_count = 3, width_items = [5, 7]\<rparr>, \<lparr>total_ram = 3, stdout = []\<rparr>)"
proof -
  have g: "[glyph_A, glyph_B, glyph_C] \<noteq> []" by simp
  have f: "0 \<le> first_ascii config_AC" and l: "last_ascii config_AC < 1114112"
    by (simp_all add: config_AC_def)
  have "makeWidthsTable config_AC [glyph_A, glyph_B, glyph_C] start_state
     = Inr (\<lparr>declared_count = 3, width_items = [5, 7]\<rparr>, \<lparr>total_ram = 3, stdout = []\<rparr>)"
    unfolding makeWidthsTable_result [OF g f l] range_AC emitted_AC
    by (simp add: resolved_ABC start_state_def) (simp add: config_AC_def glyph_A_def glyph_C_def)
  then show ?thesis by (simp add: range_AC) (simp add: config_AC_def)
qed

text \<open>
  Claim C3, amended. When \<open>fixed_width\<close> is 0 the builder produces a widths table declared
  with the size \<open>last_ascii - first_ascii + 1\<close> whose items are the advances of the
  resolved glyphs of the code points of the range that are not skipped, in ascending order;
  these are all the code points of the range when \<open>chars\<close> is \<open>None\<close> or empty. When
  \<open>fixed_width\<close> is not 0 no widths table is produced.
\<close>

theorem widths_table_subset:
  assumes "glyphs \<noteq> []" and "0 \<le> first_ascii config" and "last_ascii config < 1114112"
  shows "\<exists>src st'. makeFontSource config img glyphs st = Inr (src, st') \<and>
           (fixed_width config \<noteq> 0 \<longrightarrow> widths src = None) \<and>
           (fixed_width config = 0 \<longrightarrow>
              widths src = Some \<lparr>declared_count = last_ascii config - first_ascii config + 1,
                width_items = map (\<lambda>c. xadvance (resolved glyphs c))
                  (filter (\<lambda>c. \<not> skipped config c) [first_ascii config..last_ascii config])\<rparr>) \<and>
           (\<not> truthy (chars config) \<longrightarrow>
              filter (\<lambda>c. \<not> skipped config c) [first_ascii config..last_ascii config]
                = [first_ascii config..last_ascii config])"
proof -
  have "\<not> truthy (chars config) \<Longrightarrow> \<not> skipped config c" for c
    by (auto simp add: truthy_def skipped_def split: option.splits)
  then have "\<not> truthy (chars config) \<longrightarrow>
              filter (\<lambda>c. \<not> skipped config c) [first_ascii config..last_ascii config]
                = [first_ascii config..last_ascii config]"
    by simp
  then show ?thesis
    unfolding makeFontSource_result [OF assms] emitted_def by simp
qed

theorem widths_table_subset_witness:
  "\<exists>src st'. makeFontSource config_AC sheet_A [glyph_A, glyph_B, glyph_C] start_state = Inr (src, st') \<and>
      widths src = Some \<lparr>declared_count = 3, width_items = [5, 7]\<rparr>"
proof -
  have g: "[glyph_A, glyph_B, glyph_C] \<noteq> []" by simp
  have f: "0 \<le> first_ascii config_AC" and l: "last_ascii config_AC < 1114112"
    by (simp_all add: config_AC_def)
  have fw: "fixed_width config_AC = 0" by (simp add: config_AC_def)
  have e: "filter (\<lambda>c. \<not> skipped config_AC c) [65, 66, 67] = [65, 67]"
    using emitted_AC by (simp add: emitted_def)
  have d: "last_ascii config_AC - first_ascii config_AC + 1 = 3" by (simp add: config_AC_def)
  have a: "xadvance glyph_A = 5" "xadvance glyph_C = 7" by (simp_all add: glyph_A_def glyph_C_def)
  from widths_table_subset [OF g f l, of sheet_A start_state]
  show ?thesis unfolding range_AC e d using fw by (auto simp add: resolved_ABC a)
qed

lemma emitted_append: "emitted config (xs @ ys) = emitted config xs @ emitted config ys"
  by (simp add: emitted_def)

lemma find_glyph_None: "(\<forall>g \<in> set glyphs. glyph_id g \<noteq> c) \<Longrightarrow> find_glyph glyphs c = None"
  by (simp add: find_glyph_def find_None_iff)

lemma nth_emitted_split:
  assumes "lo \<le> c" and "c \<le> hi" and "\<not> skipped config c"
  shows "length (emitted config [lo..c - 1]) < length (emitted config [lo..hi]) \<and>
         emitted config [lo..hi] ! length (emitted config [lo..c - 1]) = c"
proof -
  have "[lo..hi] = [lo..c - 1] @ c # [c + 1..hi]"
    using assms(1,2) by (rule upto_split3)
  then have "emitted config [lo..hi]
               = emitted config [lo..c - 1] @ c # emitted config [c + 1..hi]"
    using assms(3) by (simp add: emitted_def)
  then show ?thesis by simp
qed

text \<open>
  Claim C4. Let the glyph collection be non-empty and the range consist of code points.
  For a code point \<open>c\<close> of the range that is not skipped and is the id of no glyph, the
  build returns without raising, the line \<open>INFO: No glyph for ASCII: c, using substitute\<close>
  is printed, and the item of the bitmaps table for \<open>c\<close> (at the position given by the
  number of code points emitted before \<open>c\<close>) is the code of the first glyph, \<open>glyphs[0]\<close>,
  under the note naming \<open>c\<close>.
\<close>

theorem missing_glyph_substitution:
  assumes "glyphs \<noteq> []" and "0 \<le> first_ascii config" and "last_ascii config < 1114112"
    and "first_ascii config \<le> c" and "c \<le> last_ascii config"
    and "\<not> skipped config c" and "\<forall>g \<in> set glyphs. glyph_id g \<noteq> c"
  shows "\<exists>src st'. makeFontSource config img glyphs st = Inr (src, st') \<and>
           NoGlyphInfo c \<in> set (stdout st') \<and>
           length (filter (\<lambda>a. \<not> skipped config a) [first_ascii config..c - 1])
             < length (bitmaps src) \<and>
           bitmaps src ! length (filter (\<lambda>a. \<not> skipped config a) [first_ascii config..c - 1])
             = \<lparr>substitute_note = Some c,
                item_code = makeBitmapCode (glyphs ! 0) img (bytes_width config * 8)
                              (bytes_height config) (crop_x config) (crop_y config)\<rparr>"
proof -
  let ?range = "[first_ascii config..last_ascii config]"
  let ?k = "length (emitted config [first_ascii config..c - 1])"
  have none: "find_glyph glyphs c = None" using assms(7) by (rule find_glyph_None)
  have pos: "?k < length (emitted config ?range)" and at: "emitted config ?range ! ?k = c"
    using nth_emitted_split [OF assms(4,5,6)] by simp_all
  have "c \<in> set (emitted config ?range)" using pos at by (metis nth_mem)
  then have msg: "c \<in> set (missing config glyphs ?range)" using none by (simp add: missing_def)
  have item: "item_for config img glyphs c
                = \<lparr>substitute_note = Some c,
                   item_code = makeBitmapCode (glyphs ! 0) img (bytes_width config * 8)
                                 (bytes_height config) (crop_x config) (crop_y config)\<rparr>"
    using none by (simp add: item_for_def resolved_def)
  have nth: "map (item_for config img glyphs) (emitted config ?range) ! ?k
               = item_for config img glyphs c"
    using pos at by simp
  show ?thesis
    unfolding makeFontSource_result [OF assms(1,2,3)]
    using msg pos nth item by (simp add: emitted_def)
qed

theorem missing_glyph_substitution_witness:
  "\<exists>src st'. makeFontSource (config_AC\<lparr>chars := None\<rparr>) sheet_A [glyph_A, glyph_B] start_state
                = Inr (src, st') \<and>
     NoGlyphInfo 67 \<in> set (stdout st') \<and>
     bitmaps src ! 2
       = \<lparr>substitute_note = Some 67, item_code = makeBitmapCode glyph_A sheet_A 8 1 0 0\<rparr>"
proof -
  let ?c = "config_AC\<lparr>chars := None\<rparr>"
  have g: "[glyph_A, glyph_B] \<noteq> []" by simp
  have f: "0 \<le> first_ascii ?c" and l: "last_ascii ?c < 1114112"
    and a: "first_ascii ?c \<le> 67" and b: "67 \<le> last_ascii ?c"
    by (simp_all add: config_AC_def)
  have s: "\<not> skipped ?c 67" by (simp add: skipped_def)
  have m: "\<forall>g \<in> set [glyph_A, glyph_B]. glyph_id g \<noteq> 67"
    by (simp add: glyph_A_def glyph_B_def)
  have r: "[first_ascii ?c..67 - 1] = [65, 66]" by (simp add: config_AC_def upto_rec1)
  have k: "length (filter (\<lambda>a. \<not> skipped ?c a) [65, 66]) = 2" by (simp add: skipped_def)
  from missing_glyph_substitution [OF g f l a b s m, of sheet_A start_state]
  show ?thesis unfolding r k by (auto simp add: config_AC_def)
qed

lemma length_offset_items: "length (offset_items config cs n) = length cs"
  by (simp add: offset_items_def)

lemma nth_offset_items:
  "k < length cs \<Longrightarrow>
     offset_items config cs n ! k
       = (if selected config (cs ! k) then dense_index config cs n k else - 1)"
  by (simp add: offset_items_def)

lemma truthy_iff: "truthy cs \<longleftrightarrow> (\<exists>s. cs = Some s \<and> s \<noteq> {})"
  by (cases cs) (simp_all add: truthy_def)

text \<open>
  Claim C5 fails as stated: a strings file that holds only a newline sets \<open>chars\<close> to the
  empty set, and \<open>makeFontSource\<close> then produces no offsets table, because the test
  \<open>if config.chars\<close> is false for the empty set.
\<close>

theorem offset_table_counterexample:
  "chars config_blank = Some {} \<and>
   chars config_blank \<noteq> None \<and>
   makeFontSource config_blank sheet_A [glyph_A] start_state
     = Inr (\<lparr>bitmaps = [item_for config_blank sheet_A [glyph_A] 65],
            widths = Some \<lparr>declared_count = 1, width_items = [5]\<rparr>,
            offsets = None,
            style = makeFontStyleDecl config_blank\<rparr>,
           \<lparr>total_ram = 2, stdout = []\<rparr>)"
proof -
  have c: "chars config_blank = Some {}"
    by (simp add: config_blank_def config_chars_def loadStringsCharSet_def)
  have g: "[glyph_A] \<noteq> []" by simp
  have f: "0 \<le> first_ascii config_blank" and l: "last_ascii config_blank < 1114112"
    by (simp_all add: config_blank_def)
  have r: "[first_ascii config_blank..last_ascii config_blank] = [65]"
    by (simp add: config_blank_def upto_rec1)
  have e: "emitted config_blank [65] = [65]" by (simp add: emitted_def skipped_def c)
  have m: "missing config_blank [glyph_A] [65] = []"
    unfolding missing_def e by (simp add: find_glyph_def glyph_A_def)
  have a: "xadvance (resolved [glyph_A] 65) = 5"
    by (simp add: resolved_def find_glyph_def glyph_A_def)
  have t: "\<not> truthy (chars config_blank)" by (simp add: truthy_def c)
  have fields: "fixed_width config_blank = 0" "bytes_width config_blank = 1"
    "bytes_height config_blank = 1" "last_ascii config_blank - first_ascii config_blank + 1 = 1"
    by (simp_all add: config_blank_def)
  have "makeFontSource config_blank sheet_A [glyph_A] start_state
     = Inr (\<lparr>bitmaps = [item_for config_blank sheet_A [glyph_A] 65],
            widths = Some \<lparr>declared_count = 1, width_items = [5]\<rparr>,
            offsets = None,
            style = makeFontStyleDecl config_blank\<rparr>,
           \<lparr>total_ram = 2, stdout = []\<rparr>)"
    unfolding makeFontSource_result [OF g f l] r e m
    using t a by (simp add: fields start_state_def)
  then show ?thesis using c by simp
qed

text \<open>
  Claim C5, amended. The offsets table is produced exactly when \<open>chars\<close> is set and is not
  the empty set. It has one item per code point of the range, in ascending order: for a
  selected code point the number of selected code points before it, for any other code
  point \<open>-1\<close>. For the characters \<open>{'A', 'C'}\<close> and the range 65 to 67 it is
  \<open>[0, -1, 1]\<close>.
\<close>

theorem offset_table_contents:
  assumes "glyphs \<noteq> []" and "0 \<le> first_ascii config" and "last_ascii config < 1114112"
  shows "\<exists>src st'. makeFontSource config img glyphs st = Inr (src, st') \<and>
           (offsets src \<noteq> None \<longleftrightarrow> (\<exists>s. chars config = Some s \<and> s \<noteq> {})) \<and>
           (\<forall>t. offsets src = Some t \<longrightarrow>
              length t = length [first_ascii config..last_ascii config] \<and>
              (\<forall>k < length t.
                 t ! k = (if selected config (first_ascii config + int k)
                          then int (length (filter (selected config)
                                     (take k [first_ascii config..last_ascii config])))
                          else - 1))) \<and>
           (chars config = Some {65, 67} \<and> first_ascii config = 65 \<and> last_ascii config = 67
              \<longrightarrow> offsets src = Some [0, - 1, 1])"
proof -
  let ?range = "[first_ascii config..last_ascii config]"
  let ?t = "offset_items config ?range 0"
  have items: "?t ! k = (if selected config (first_ascii config + int k)
                  then int (length (filter (selected config) (take k ?range))) else - 1)"
    if "k < length ?t" for k
  proof -
    have k: "k < length ?range" using that by (simp only: length_offset_items)
    then have "first_ascii config + int k \<le> last_ascii config" by simp
    then have "?range ! k = first_ascii config + int k" by (rule nth_upto)
    then show ?thesis using nth_offset_items [OF k, of config 0] by (simp add: dense_index_def)
  qed
  have example: "?t = [0, - 1, 1]"
    if "chars config = Some {65, 67} \<and> first_ascii config = 65 \<and> last_ascii config = 67"
  proof -
    have "?range = [65, 66, 67]" using that by (simp add: upto_rec1)
    then show ?thesis using that by (simp add: offset_items_Cons offset_items_Nil selected_def)
  qed
  have "(if truthy (chars config) then Some ?t else None) \<noteq> None
          \<longleftrightarrow> (\<exists>s. chars config = Some s \<and> s \<noteq> {})"
    by (simp add: truthy_iff)
  moreover have "\<forall>t. (if truthy (chars config) then Some ?t else None) = Some t \<longrightarrow>
      length t = length ?range \<and>
      (\<forall>k < length t. t ! k = (if selected config (first_ascii config + int k)
                  then int (length (filter (selected config) (take k ?range))) else - 1))"
    using items by (simp add: length_offset_items)
  moreover have "chars config = Some {65, 67} \<and> first_ascii config = 65 \<and> last_ascii config = 67
      \<longrightarrow> (if truthy (chars config) then Some ?t else None) = Some [0, - 1, 1]"
    using example by (auto simp add: truthy_def)
  ultimately show ?thesis
    unfolding makeFontSource_result [OF assms] by simp
qed

theorem offset_table_contents_witness:
  "\<exists>src st'. makeFontSource config_AC sheet_A [glyph_A] start_state = Inr (src, st') \<and>
      offsets src = Some [0, - 1, 1]"
proof -
  have g: "[glyph_A] \<noteq> []" by simp
  have f: "0 \<le> first_ascii config_AC" and l: "last_ascii config_AC < 1114112"
    by (simp_all add: config_AC_def)
  have c: "chars config_AC = Some {65, 67} \<and> first_ascii config_AC = 65 \<and> last_ascii config_AC = 67"
    by (simp add: config_AC_def)
  from offset_table_contents [OF g f l, of sheet_A start_state] c
  show ?thesis by blast
qed



section \<open>Claims about the samples and the character set\<close>

lemma pixel_at_cong:
  assumes "\<forall>sx sy. 0 \<le> sx \<and> sx < width g \<and> 0 \<le> sy \<and> sy < height g \<longrightarrow>
             img1 (glyph_x g + sx, glyph_y g + sy) = img2 (glyph_x g + sx, glyph_y g + sy)"
  shows "pixel_at g img1 x y cx cy = pixel_at g img2 x y cx cy"
proof -
  let ?ux = "x - xoffset g + cx" and ?uy = "y - yoffset g + cy"
  show ?thesis
  proof (cases "0 \<le> ?ux \<and> ?ux < width g \<and> 0 \<le> ?uy \<and> ?uy < height g")
    case True
    then have "img1 (glyph_x g + ?ux, glyph_y g + ?uy) = img2 (glyph_x g + ?ux, glyph_y g + ?uy)"
      using assms by blast
    then have "img1 (?ux + glyph_x g, ?uy + glyph_y g) = img2 (?ux + glyph_x g, ?uy + glyph_y g)"
      by (simp only: add.commute)
    then show ?thesis by (simp add: pixel_at_def Let_def)
  next
    case False
    then show ?thesis by (auto simp add: pixel_at_def Let_def)
  qed
qed

lemma row_step_cong:
  assumes "\<And>x. pixel_at g img1 x y cx cy = pixel_at g img2 x y cx cy"
  shows "row_step g img1 y cx cy = row_step g img2 y cx cy"
  by (intro ext) (simp add: row_step_def assms)

text \<open>
  Of the image, \<open>makeBitmapCode\<close> uses only the samples inside the glyph's rectangle:
  two images that agree there give the same code.
\<close>

lemma makeBitmapCode_agree:
  assumes "\<forall>sx sy. 0 \<le> sx \<and> sx < width g \<and> 0 \<le> sy \<and> sy < height g \<longrightarrow>
             img1 (glyph_x g + sx, glyph_y g + sy) = img2 (glyph_x g + sx, glyph_y g + sy)"
  shows "makeBitmapCode g img1 wd ht cx cy = makeBitmapCode g img2 wd ht cx cy"
proof -
  have "row_step g img1 y cx cy = row_step g img2 y cx cy" for y
    by (rule row_step_cong) (rule pixel_at_cong [OF assms])
  then have "make_row g img1 wd y cx cy = make_row g img2 wd y cx cy" for y
    by (simp add: make_row_def)
  then show ?thesis by (simp add: makeBitmapCode_def)
qed

lemma getpixel_args_inside:
  assumes "p \<in> set (getpixel_args g x y cx cy)"
  shows "\<exists>src_x src_y. p = (glyph_x g + src_x, glyph_y g + src_y) \<and>
           src_x = x - xoffset g + cx \<and> src_y = y - yoffset g + cy \<and>
           0 \<le> src_x \<and> src_x < width g \<and> 0 \<le> src_y \<and> src_y < height g"
  using assms by (auto simp add: getpixel_args_def Let_def split: if_splits)

lemma getpixel_calls_inside:
  assumes "p \<in> set (getpixel_calls g wd ht cx cy)"
  shows "\<exists>x y. 0 \<le> x \<and> x < wd \<and> 0 \<le> y \<and> y < ht \<and> p \<in> set (getpixel_args g x y cx cy)"
proof -
  have "set (getpixel_calls g wd ht cx cy)
          = (\<Union>y \<in> {0..ht - 1}. \<Union>x \<in> {0..wd - 1}. set (getpixel_args g x y cx cy))"
    by (simp add: getpixel_calls_def)
  then obtain x y where "y \<in> {0..ht - 1}" and "x \<in> {0..wd - 1}"
    and p: "p \<in> set (getpixel_args g x y cx cy)"
    using assms by blast
  then have "0 \<le> x \<and> x < wd \<and> 0 \<le> y \<and> y < ht" by simp
  then show ?thesis using p by blast
qed

lemma pixel_at_getpixel_args:
  "pixel_at g img x y cx cy
     = (case getpixel_args g x y cx cy of
          [] \<Rightarrow> 0
        | p # _ \<Rightarrow> (if img p > 127 then 1 else 0))"
  by (simp add: pixel_at_def getpixel_args_def Let_def)

text \<open>
  Claim C10. Every call of \<open>img.getpixel\<close> made by \<open>makeBitmapCode\<close> is made for a target
  column and row of the cell, at the glyph's sheet position plus source coordinates that
  lie in \<open>[0, width)\<close> and \<open>[0, height)\<close>; so when the glyph's rectangle lies within an
  image of \<open>W\<close> by \<open>H\<close> pixels every call is inside the image. The pixel is computed from
  the image through these calls only.
\<close>

theorem samples_inside_glyph:
  "(\<forall>p \<in> set (getpixel_calls g wd ht cx cy).
      \<exists>x y src_x src_y.
        0 \<le> x \<and> x < wd \<and> 0 \<le> y \<and> y < ht \<and>
        src_x = x - xoffset g + cx \<and> src_y = y - yoffset g + cy \<and>
        p = (glyph_x g + src_x, glyph_y g + src_y) \<and>
        0 \<le> src_x \<and> src_x < width g \<and> 0 \<le> src_y \<and> src_y < height g) \<and>
   (0 \<le> glyph_x g \<and> glyph_x g + width g \<le> W \<and> 0 \<le> glyph_y g \<and> glyph_y g + height g \<le> H
      \<longrightarrow> (\<forall>p \<in> set (getpixel_calls g wd ht cx cy).
             0 \<le> fst p \<and> fst p < W \<and> 0 \<le> snd p \<and> snd p < H)) \<and>
   (\<forall>x y. pixel_at g img x y cx cy
            = (case getpixel_args g x y cx cy of
                 [] \<Rightarrow> 0
               | p # _ \<Rightarrow> (if img p > 127 then 1 else 0)))"
proof -
  have a: "\<exists>x y src_x src_y.
        0 \<le> x \<and> x < wd \<and> 0 \<le> y \<and> y < ht \<and>
        src_x = x - xoffset g + cx \<and> src_y = y - yoffset g + cy \<and>
        p = (glyph_x g + src_x, glyph_y g + src_y) \<and>
        0 \<le> src_x \<and> src_x < width g \<and> 0 \<le> src_y \<and> src_y < height g"
    if pin: "p \<in> set (getpixel_calls g wd ht cx cy)" for p
  proof -
    obtain x y where xy: "0 \<le> x" "x < wd" "0 \<le> y" "y < ht"
      and p: "p \<in> set (getpixel_args g x y cx cy)"
      using getpixel_calls_inside [OF pin] by blast
    from getpixel_args_inside [OF p] xy show ?thesis by blast
  qed
  have b: "0 \<le> fst p \<and> fst p < W \<and> 0 \<le> snd p \<and> snd p < H"
    if pin: "p \<in> set (getpixel_calls g wd ht cx cy)"
      and r: "0 \<le> glyph_x g \<and> glyph_x g + width g \<le> W \<and> 0 \<le> glyph_y g \<and> glyph_y g + height g \<le> H"
    for p
  proof -
    obtain sx sy where "p = (glyph_x g + sx, glyph_y g + sy)"
      and "0 \<le> sx" "sx < width g" "0 \<le> sy" "sy < height g"
      using a [OF pin] by blast
    then show ?thesis using r by simp
  qed
  show ?thesis using a b pixel_at_getpixel_args by blast
qed

theorem samples_inside_glyph_witness:
  "getpixel_calls glyph_A 8 1 0 0 = [(2, 3)] \<and>
   list_all (\<lambda>p. 0 \<le> fst p \<and> fst p < 3 \<and> 0 \<le> snd p \<and> snd p < 4)
     (getpixel_calls glyph_A 8 1 0 0)"
proof -
  have r: "0 \<le> glyph_x glyph_A \<and> glyph_x glyph_A + width glyph_A \<le> 3 \<and>
           0 \<le> glyph_y glyph_A \<and> glyph_y glyph_A + height glyph_A \<le> 4"
    by (simp add: glyph_A_def)
  have "[0..8 - 1] = [0, 1, 2, 3, 4, 5, 6, 7::int]" by (simp add: upto_rec1)
  then have c: "getpixel_calls glyph_A 8 1 0 0 = [(2, 3)]"
    by (simp add: getpixel_calls_def getpixel_args_def glyph_A_def)
  from samples_inside_glyph [of glyph_A 8 1 0 0 3 4 sheet_A] r
  have "\<forall>p \<in> set (getpixel_calls glyph_A 8 1 0 0). 0 \<le> fst p \<and> fst p < 3 \<and> 0 \<le> snd p \<and> snd p < 4"
    by blast
  then have "list_all (\<lambda>p. 0 \<le> fst p \<and> fst p < 3 \<and> 0 \<le> snd p \<and> snd p < 4)
     (getpixel_calls glyph_A 8 1 0 0)"
    by (simp only: list_all_iff)
  then show ?thesis using c by blast
qed

lemma skipped_empty: "skipped (config\<lparr>chars := Some {}\<rparr>) c = skipped (config\<lparr>chars := None\<rparr>) c"
  by (simp add: skipped_def)

lemma selected_empty: "selected (config\<lparr>chars := Some {}\<rparr>) c = selected (config\<lparr>chars := None\<rparr>) c"
  by (simp add: selected_def)

lemma bitmaps_loop_empty:
  "bitmaps_loop (config\<lparr>chars := Some {}\<rparr>) img glyphs cs s st
     = bitmaps_loop (config\<lparr>chars := None\<rparr>) img glyphs cs s st"
proof (induction cs arbitrary: s st)
  case Nil
  show ?case by simp
next
  case (Cons c cs)
  show ?case
    using Cons.IH
    by (cases glyphs) (simp_all add: skipped_empty split: sum.split option.split)
qed

lemma widths_loop_empty:
  "widths_loop (config\<lparr>chars := Some {}\<rparr>) glyphs cs s
     = widths_loop (config\<lparr>chars := None\<rparr>) glyphs cs s"
proof (induction cs arbitrary: s)
  case Nil
  show ?case by simp
next
  case (Cons c cs)
  show ?case
    using Cons.IH
    by (cases glyphs) (simp_all add: skipped_empty split: sum.split option.split)
qed

lemma makeFontSource_empty:
  "makeFontSource (config\<lparr>chars := Some {}\<rparr>) img glyphs st
     = makeFontSource (config\<lparr>chars := None\<rparr>) img glyphs st"
proof -
  have b: "makeBitmapsTable (config\<lparr>chars := Some {}\<rparr>) img glyphs st
             = makeBitmapsTable (config\<lparr>chars := None\<rparr>) img glyphs st"
    by (simp add: makeBitmapsTable_def bitmaps_loop_empty)
  have w: "makeWidthsTable (config\<lparr>chars := Some {}\<rparr>) glyphs st1
             = makeWidthsTable (config\<lparr>chars := None\<rparr>) glyphs st1" for st1
    by (simp add: makeWidthsTable_def widths_loop_empty)
  have t: "truthy (chars (config\<lparr>chars := Some {}\<rparr>)) = truthy (chars (config\<lparr>chars := None\<rparr>))"
    by (simp add: truthy_def)
  have d: "makeFontStyleDecl (config\<lparr>chars := Some {}\<rparr>) = makeFontStyleDecl (config\<lparr>chars := None\<rparr>)"
    by (simp add: makeFontStyleDecl_def truthy_def)
  have f: "fixed_width (config\<lparr>chars := Some {}\<rparr>) = fixed_width (config\<lparr>chars := None\<rparr>)"
    by simp
  have n: "\<not> truthy (chars (config\<lparr>chars := None\<rparr>))" by (simp add: truthy_def)
  show ?thesis
    unfolding makeFontSource_def b w t d f using n by simp
qed

text \<open>
  Claim C9. When the strings file yields the empty character set, the font is built as
  when \<open>chars\<close> is \<open>None\<close>: the result of \<open>makeFontSource\<close> is the same, no code point is
  skipped, and when the glyph collection is non-empty and the range consists of code
  points the build returns with no offsets table, with a bitmaps item for every code point
  of the range and, when \<open>fixed_width\<close> is 0, a width item for every code point of the range.
\<close>

theorem empty_charset_as_absent:
  assumes "loadStringsCharSet strings = {}"
  shows "makeFontSource (config\<lparr>chars := config_chars (Some strings)\<rparr>) img glyphs st
           = makeFontSource (config\<lparr>chars := config_chars None\<rparr>) img glyphs st \<and>
         (\<forall>c. \<not> skipped (config\<lparr>chars := config_chars (Some strings)\<rparr>) c) \<and>
         (glyphs \<noteq> [] \<and> 0 \<le> first_ascii config \<and> last_ascii config < 1114112 \<longrightarrow>
            (\<exists>src st'. makeFontSource (config\<lparr>chars := config_chars (Some strings)\<rparr>) img glyphs st
                          = Inr (src, st') \<and>
               offsets src = None \<and>
               map substitute_note (bitmaps src)
                 = map (\<lambda>c. if find_glyph glyphs c = None then Some c else None)
                     [first_ascii config..last_ascii config] \<and>
               map item_code (bitmaps src)
                 = map (\<lambda>c. makeBitmapCode (resolved glyphs c) img (bytes_width config * 8)
                              (bytes_height config) (crop_x config) (crop_y config))
                     [first_ascii config..last_ascii config] \<and>
               (fixed_width config = 0 \<longrightarrow>
                  map_option width_items (widths src)
                    = Some (map (\<lambda>c. xadvance (resolved glyphs c))
                              [first_ascii config..last_ascii config]))))"
proof -
  let ?c = "config\<lparr>chars := Some {}\<rparr>"
  have cs: "config_chars (Some strings) = Some {}" using assms by (simp add: config_chars_def)
  have cn: "config_chars None = None" by (simp add: config_chars_def)
  have sk: "\<not> skipped ?c c" for c by (simp add: skipped_def)
  then have em: "emitted ?c xs = xs" for xs by (simp add: emitted_def)
  have nt: "\<not> truthy (chars ?c)" by (simp add: truthy_def)
  have res: "\<exists>src st'. makeFontSource ?c img glyphs st = Inr (src, st') \<and>
               offsets src = None \<and>
               map substitute_note (bitmaps src)
                 = map (\<lambda>c. if find_glyph glyphs c = None then Some c else None)
                     [first_ascii config..last_ascii config] \<and>
               map item_code (bitmaps src)
                 = map (\<lambda>c. makeBitmapCode (resolved glyphs c) img (bytes_width config * 8)
                              (bytes_height config) (crop_x config) (crop_y config))
                     [first_ascii config..last_ascii config] \<and>
               (fixed_width config = 0 \<longrightarrow>
                  map_option width_items (widths src)
                    = Some (map (\<lambda>c. xadvance (resolved glyphs c))
                              [first_ascii config..last_ascii config]))"
    if h: "glyphs \<noteq> [] \<and> 0 \<le> first_ascii config \<and> last_ascii config < 1114112"
  proof -
    have g: "glyphs \<noteq> []" and f: "0 \<le> first_ascii ?c" and l: "last_ascii ?c < 1114112"
      using h by simp_all
    show ?thesis
      unfolding makeFontSource_result [OF g f l] em
      using nt by (simp add: item_for_def comp_def)
  qed
  show ?thesis unfolding cs cn using makeFontSource_empty sk res by blast
qed

theorem empty_charset_as_absent_witness:
  "loadStringsCharSet [10, 10] = {} \<and>
   makeFontSource (config_AC\<lparr>chars := config_chars (Some [10, 10])\<rparr>) sheet_A [glyph_A] start_state
     = makeFontSource (config_AC\<lparr>chars := config_chars None\<rparr>) sheet_A [glyph_A] start_state"
proof -
  have e: "loadStringsCharSet [10, 10] = {}" by (simp add: loadStringsCharSet_def)
  from empty_charset_as_absent [OF e, of config_AC sheet_A "[glyph_A]" start_state] e
  show ?thesis by blast
qed

section \<open>The byte count of a run\<close>

text \<open>
  Claim C8 fails on the code when a character set excludes a code point. For one font
  with the range 65 to 67, cells of one byte by one row, the characters \<open>{'A', 'C'}\<close> and
  \<open>fixed_width = 0\<close>, the bitmaps table has 2 bytes and the widths table 2 items, and the
  run reports 6 bytes: both \<open>makeBitmapsTable\<close> and \<open>makeWidthsTable\<close> add the count of
  the whole range before their loops skip code point 66.
\<close>

theorem total_ram_overcount:
  "\<exists>source st'. processConfig [(config_AC, sheet_A, [glyph_A, glyph_B, glyph_C])] start_state
                   = Inr (source, st') \<and>
     stdout st' = [FontTablesUse 6] \<and>
     map (\<lambda>font. length (table_bytes (bitmaps font))) source = [2] \<and>
     map (\<lambda>font. map_option (\<lambda>w. length (width_items w)) (widths font)) source = [Some 2]"
proof -
  have g: "[glyph_A, glyph_B, glyph_C] \<noteq> []" by simp
  have f: "0 \<le> first_ascii config_AC" and l: "last_ascii config_AC < 1114112"
    by (simp_all add: config_AC_def)
  have fields: "fixed_width config_AC = 0" "bytes_width config_AC = 1" "bytes_height config_AC = 1"
    "last_ascii config_AC - first_ascii config_AC + 1 = 3"
    by (simp_all add: config_AC_def)
  have m: "missing config_AC [glyph_A, glyph_B, glyph_C] [65, 66, 67] = []"
    unfolding missing_def emitted_AC
    by (simp add: find_glyph_def glyph_A_def glyph_B_def glyph_C_def)
  have len: "length (table_bytes (map (item_for config_AC sheet_A [glyph_A, glyph_B, glyph_C]) [65, 67])) = 2"
    unfolding length_table_bytes by (simp add: fields)
  show ?thesis
    unfolding processConfig_def fonts_loop.simps makeFontSource_result [OF g f l] range_AC emitted_AC m
    using len by (simp add: fields start_state_def)
qed

lemma makeFontSource_total_ram:
  assumes "glyphs \<noteq> []" and "0 \<le> first_ascii config" and "last_ascii config < 1114112"
  shows "\<exists>font st'. makeFontSource config img glyphs st = Inr (font, st') \<and>
           total_ram st' = total_ram st + counted_bytes config"
  unfolding makeFontSource_result [OF assms] by (simp add: counted_bytes_def)

lemma fonts_loop_total_ram:
  assumes "\<forall>(config, img, glyphs) \<in> set fonts.
             glyphs \<noteq> [] \<and> 0 \<le> first_ascii config \<and> last_ascii config < 1114112"
  shows "\<exists>source st'. fonts_loop fonts acc st = Inr (source, st') \<and>
           total_ram st' = total_ram st
             + sum_list (map (\<lambda>font. counted_bytes (fst font)) fonts)"
  using assms
proof (induction fonts arbitrary: acc st)
  case Nil
  show ?case by simp
next
  case (Cons font fonts)
  obtain config img glyphs where font: "font = (config, img, glyphs)" by (cases font) auto
  have ok: "glyphs \<noteq> []" "0 \<le> first_ascii config" "last_ascii config < 1114112"
    using Cons.prems font by simp_all
  obtain src st1 where one: "makeFontSource config img glyphs st = Inr (src, st1)"
    and t1: "total_ram st1 = total_ram st + counted_bytes config"
    using makeFontSource_total_ram [OF ok] by blast
  have rest: "\<forall>(config, img, glyphs) \<in> set fonts.
             glyphs \<noteq> [] \<and> 0 \<le> first_ascii config \<and> last_ascii config < 1114112"
    using Cons.prems by simp
  obtain source st' where r: "fonts_loop fonts (acc @ [src]) st1 = Inr (source, st')"
    and t: "total_ram st' = total_ram st1
             + sum_list (map (\<lambda>font. counted_bytes (fst font)) fonts)"
    using Cons.IH [OF rest] by blast
  show ?case using font one r t t1 by simp
qed

lemma processConfig_total_ram:
  assumes "\<forall>(config, img, glyphs) \<in> set fonts.
             glyphs \<noteq> [] \<and> 0 \<le> first_ascii config \<and> last_ascii config < 1114112"
  shows "\<exists>source st'. processConfig fonts st = Inr (source, st') \<and>
           last (stdout st')
             = FontTablesUse (sum_list (map (\<lambda>font. counted_bytes (fst font)) fonts))"
proof -
  obtain source st1 where r: "fonts_loop fonts [] (st\<lparr>total_ram := 0\<rparr>) = Inr (source, st1)"
    and t: "total_ram st1 = total_ram (st\<lparr>total_ram := 0\<rparr>)
             + sum_list (map (\<lambda>font. counted_bytes (fst font)) fonts)"
    using fonts_loop_total_ram [OF assms] by blast
  show ?thesis unfolding processConfig_def r using t by simp
qed

end
